theory Spec2Isabelle
  imports Complex_Main "HOL-Library.Monad_Syntax"
begin

section \<open>SwaggerForge: the values of an API document\<close>

text \<open>
  The service in \<^verbatim>\<open>src/services/swaggerService.ts\<close> works on a document obtained from
  \<^verbatim>\<open>JSON.parse\<close> and typed \<^verbatim>\<open>any\<close>. Its values are modelled as the JavaScript
  values a JSON text can denote, plus \<^verbatim>\<open>undefined\<close> (the result of reading an absent
  property). An object is the list of its own properties in enumeration order (keys are
  distinct in a parsed document); a number is the rational value of the (finite) double; a
  string is a list of characters.

  Scope of the model. Members inherited from the built-in prototypes (\<^verbatim>\<open>constructor\<close>,
  \<^verbatim>\<open>toString\<close>, \<^verbatim>\<open>forEach\<close> ...) are not values of the model: reading a name that is
  not an own property gives \<^verbatim>\<open>undefined\<close>. None of the property names the service reads
  by name is such a member; a pointer segment or a property key of the document that names
  one (or the key \<^verbatim>\<open>__proto__\<close>) is outside the model. The position that integer-like
  keys take in the enumeration order of an object built by the service is not modelled:
  new keys are appended. Characters are bytes, so lengths, indices and upper-casing are
  those of ASCII text. The only exception modelled is the TypeError; the counter of
  identifiers is an unbounded natural number.
\<close>

datatype jv =
    JUndef
  | JNull
  | JBool bool
  | JNum rat
  | JStr string
  | JArr "jv list"
  | JObj "(string \<times> jv) list"

datatype error = TypeError

text \<open>JavaScript truthiness: \<^verbatim>\<open>undefined\<close>, \<^verbatim>\<open>null\<close>, \<^verbatim>\<open>false\<close>, \<^verbatim>\<open>0\<close> and
  \<^verbatim>\<open>''\<close> are falsy, every other value is truthy.\<close>

fun truthy :: "jv \<Rightarrow> bool" where
  "truthy JUndef = False"
| "truthy JNull = False"
| "truthy (JBool b) = b"
| "truthy (JNum n) = (n \<noteq> 0)"
| "truthy (JStr s) = (s \<noteq> [])"
| "truthy (JArr xs) = True"
| "truthy (JObj kvs) = True"

text \<open>\<^verbatim>\<open>a || b\<close>\<close>

definition js_or :: "jv \<Rightarrow> jv \<Rightarrow> jv" where
  "js_or a b = (if truthy a then a else b)"

fun typeof :: "jv \<Rightarrow> string" where
  "typeof JUndef = ''undefined''"
| "typeof JNull = ''object''"
| "typeof (JBool b) = ''boolean''"
| "typeof (JNum n) = ''number''"
| "typeof (JStr s) = ''string''"
| "typeof (JArr xs) = ''object''"
| "typeof (JObj kvs) = ''object''"

fun nullish :: "jv \<Rightarrow> bool" where
  "nullish JUndef = True"
| "nullish JNull = True"
| "nullish v = False"

subsection \<open>Decimal numerals\<close>

text \<open>The decimal text of a natural number, as \<^verbatim>\<open>String(n)\<close> gives it for an index or a
  counter.\<close>

definition digit_char :: "nat \<Rightarrow> char" where
  "digit_char d = ''0123456789'' ! d"

fun dec :: "nat \<Rightarrow> string" where
  "dec n = (if n < 10 then [digit_char n] else dec (n div 10) @ [digit_char (n mod 10)])"

declare dec.simps [simp del]

definition index_keys :: "nat \<Rightarrow> string list" where
  "index_keys n = map dec [0..<n]"

subsection \<open>Property access\<close>

text \<open>The own enumerable properties of a value, in enumeration order: the members of an
  object, the elements of an array under their indices, the characters of a string under
  their indices. This is what \<^verbatim>\<open>Object.keys\<close> and the spread \<^verbatim>\<open>{...v}\<close> see.\<close>

fun own_entries :: "jv \<Rightarrow> (string \<times> jv) list" where
  "own_entries (JObj kvs) = kvs"
| "own_entries (JArr xs) = zip (index_keys (length xs)) xs"
| "own_entries (JStr s) = zip (index_keys (length s)) (map (\<lambda>c. JStr [c]) s)"
| "own_entries v = []"

text \<open>\<^verbatim>\<open>v[k]\<close> on a value that is neither \<^verbatim>\<open>null\<close> nor \<^verbatim>\<open>undefined\<close>: an own property,
  the \<^verbatim>\<open>length\<close> of an array or a string, and \<^verbatim>\<open>undefined\<close> otherwise.\<close>

definition get :: "jv \<Rightarrow> string \<Rightarrow> jv" where
  "get v k =
     (case map_of (own_entries v) k of
        Some x \<Rightarrow> x
      | None \<Rightarrow>
         (if k = ''length'' then
            (case v of
               JArr xs \<Rightarrow> JNum (of_nat (length xs))
             | JStr s \<Rightarrow> JNum (of_nat (length s))
             | _ \<Rightarrow> JUndef)
          else JUndef))"

text \<open>\<^verbatim>\<open>v[k]\<close> in general: reading a property of \<^verbatim>\<open>null\<close> or \<^verbatim>\<open>undefined\<close> throws a
  TypeError.\<close>

definition getProp :: "jv \<Rightarrow> string \<Rightarrow> error + jv" where
  "getProp v k = (if nullish v then Inl TypeError else Inr (get v k))"

text \<open>\<^verbatim>\<open>v?.[k]\<close>: optional chaining yields \<^verbatim>\<open>undefined\<close> on \<^verbatim>\<open>null\<close> and \<^verbatim>\<open>undefined\<close>.\<close>

definition getOpt :: "jv \<Rightarrow> string \<Rightarrow> jv" where
  "getOpt v k = (if nullish v then JUndef else get v k)"

text \<open>\<^verbatim>\<open>Object.keys(v)\<close> throws on \<^verbatim>\<open>null\<close> and \<^verbatim>\<open>undefined\<close>.\<close>

definition Object_keys :: "jv \<Rightarrow> error + string list" where
  "Object_keys v = (if nullish v then Inl TypeError else Inr (map fst (own_entries v)))"

text \<open>\<^verbatim>\<open>obj[k] = v\<close> on an object under construction: an existing key keeps its place, a new
  key goes last.\<close>

fun set_prop :: "(string \<times> jv) list \<Rightarrow> string \<Rightarrow> jv \<Rightarrow> (string \<times> jv) list" where
  "set_prop [] k v = [(k, v)]"
| "set_prop ((k', v') # kvs) k v =
     (if k' = k then (k, v) # kvs else (k', v') # set_prop kvs k v)"

text \<open>\<^verbatim>\<open>{...combined, ...generated}\<close>: the properties of \<^verbatim>\<open>combined\<close>, then every own
  enumerable property of \<^verbatim>\<open>generated\<close> assigned in order.\<close>

definition spread_into :: "(string \<times> jv) list \<Rightarrow> jv \<Rightarrow> (string \<times> jv) list" where
  "spread_into combined generated =
     foldl (\<lambda>acc (k, v). set_prop acc k v) combined (own_entries generated)"

subsection \<open>Exceptions\<close>

text \<open>A computation that may throw is a value of \<open>error + 'a\<close>; sequencing stops at the
  first throw.\<close>

definition bind_err :: "error + 'a \<Rightarrow> ('a \<Rightarrow> error + 'b) \<Rightarrow> error + 'b" where
  "bind_err m f = (case m of Inl e \<Rightarrow> Inl e | Inr x \<Rightarrow> f x)"

text \<open>\<^verbatim>\<open>try { body } catch (e) { handler }\<close>\<close>

definition try_catch :: "error + 'a \<Rightarrow> (error \<Rightarrow> error + 'a) \<Rightarrow> error + 'a" where
  "try_catch body handler = (case body of Inl e \<Rightarrow> handler e | Inr x \<Rightarrow> Inr x)"

text \<open>\<^verbatim>\<open>xs.forEach(x => { acc = f(acc, x) })\<close> and \<^verbatim>\<open>xs.map(f)\<close> with a callback that may
  throw.\<close>

fun forEach_acc :: "('a \<Rightarrow> 'b \<Rightarrow> error + 'a) \<Rightarrow> 'a \<Rightarrow> 'b list \<Rightarrow> error + 'a" where
  "forEach_acc f acc [] = Inr acc"
| "forEach_acc f acc (x # xs) =
     (case f acc x of Inl e \<Rightarrow> Inl e | Inr acc' \<Rightarrow> forEach_acc f acc' xs)"

subsection \<open>resolveRef\<close>

text \<open>\<^verbatim>\<open>ref.replace(/^#\//, '')\<close> and \<^verbatim>\<open>.split('/')\<close>.\<close>

definition strip_hash_slash :: "string \<Rightarrow> string" where
  "strip_hash_slash r = (case r of a # b # rest \<Rightarrow>
       (if a = CHR ''#'' \<and> b = CHR ''/'' then rest else r) | _ \<Rightarrow> r)"

fun split_on :: "char \<Rightarrow> string \<Rightarrow> string list" where
  "split_on c [] = [[]]"
| "split_on c (x # xs) =
     (if x = c then [] # split_on c xs
      else (case split_on c xs of w # ws \<Rightarrow> (x # w) # ws | [] \<Rightarrow> [[x]]))"

text \<open>The loop \<^verbatim>\<open>for (const part of parts)\<close> of resolveRef.\<close>

fun walk :: "jv \<Rightarrow> string list \<Rightarrow> error + jv" where
  "walk current [] = Inr current"
| "walk current (part # parts) =
     (case getProp current part of
        Inl e \<Rightarrow> Inl e
      | Inr nxt \<Rightarrow> if nxt = JUndef then Inr JNull else walk nxt parts)"

text \<open>\<^verbatim>\<open>ref\<close> is typed \<^verbatim>\<open>string\<close> but receives \<^verbatim>\<open>s.$ref\<close>, any truthy value: one that is
  not a string has no \<^verbatim>\<open>replace\<close> method, and calling it throws.\<close>

definition resolveRef :: "jv \<Rightarrow> jv \<Rightarrow> error + jv" where
  "resolveRef ref fullDoc =
     (if \<not> truthy ref \<or> \<not> truthy fullDoc then Inr JNull
      else (case ref of
              JStr r \<Rightarrow> walk fullDoc (split_on (CHR ''/'') (strip_hash_slash r))
            | _ \<Rightarrow> Inl TypeError))"

section \<open>Sample synthesis\<close>

text \<open>What the service takes from the runtime: the clock (\<^verbatim>\<open>new Date().toISOString()\<close>,
  read as one instant per run) and the decimal text of a number
  (\<^verbatim>\<open>Number.prototype.toString\<close>, used by \<^verbatim>\<open>JSON.stringify\<close> and by template
  literals).\<close>

record js_runtime =
  now_iso :: string
  number_text :: "rat \<Rightarrow> string"

definition primitive_sample :: "js_runtime \<Rightarrow> jv \<Rightarrow> jv" where
  "primitive_sample rt s =
     (if get s ''type'' = JStr ''string'' then
        (if get s ''format'' = JStr ''date-time'' then JStr (now_iso rt)
         else if get s ''format'' = JStr ''date'' then
           JStr (takeWhile (\<lambda>c. c \<noteq> CHR ''T'') (now_iso rt))
         else if get s ''format'' = JStr ''email'' then JStr ''user@example.com''
         else if get s ''format'' = JStr ''uuid'' then
           JStr ''123e4567-e89b-12d3-a456-426614174000''
         else if get s ''format'' = JStr ''uri'' then JStr ''https://example.com''
         else if truthy (get s ''enum'') then get (get s ''enum'') ''0''
         else JStr ''sample_string'')
      else if get s ''type'' = JStr ''number'' \<or> get s ''type'' = JStr ''integer'' then JNum 0
      else if get s ''type'' = JStr ''boolean'' then JBool True
      else JNull)"


text \<open>A callback that may throw stops \<^verbatim>\<open>forEach\<close> at the element where it throws; the
  elements are visited in order.\<close>

lemma forEach_acc_cong [fundef_cong]:
  "xs = ys \<Longrightarrow> a = b \<Longrightarrow> (\<And>acc x. x \<in> set ys \<Longrightarrow> f acc x = g acc x)
   \<Longrightarrow> forEach_acc f a xs = forEach_acc g b ys"
proof (induction ys arbitrary: xs a b)
  case Nil
  then show ?case by simp
next
  case (Cons y ys)
  then show ?case by (auto split: sum.splits)
qed


text \<open>The inner function \<^verbatim>\<open>generate\<close> of \<^verbatim>\<open>generateSampleJson\<close>, with the set
  \<^verbatim>\<open>seenRefs\<close> passed down to the recursive calls. The source keeps one mutable set, adds
  the pointer before the recursive call and deletes it after the call has returned; that
  reading is \<open>generate_st\<close> below, and \<open>generate_st_eq\<close> shows that both compute the same
  sample and that the mutable set is, on return, what it was at the call. Every property
  read below is on a truthy value, where it cannot throw. \<^verbatim>\<open>s.allOf.forEach\<close> exists only
  on an array.\<close>

function generate :: "js_runtime \<Rightarrow> jv \<Rightarrow> jv set \<Rightarrow> jv \<Rightarrow> error + jv" where
  "generate rt fullDoc seenRefs s =
     (if \<not> truthy s then Inr JNull
      else if truthy (get s ''$ref'') then
        (if get s ''$ref'' \<in> seenRefs then Inr (JObj [])
         else
           (case resolveRef (get s ''$ref'') fullDoc of
              Inl e \<Rightarrow> Inl e
            | Inr resolved \<Rightarrow>
                if truthy resolved
                then generate rt fullDoc (insert (get s ''$ref'') seenRefs) resolved
                else Inr (JObj [])))
      else if truthy (get s ''allOf'') then
        (case get s ''allOf'' of
           JArr subs \<Rightarrow>
             (case forEach_acc
                     (\<lambda>combined sub.
                        case generate rt fullDoc seenRefs sub of
                          Inl e \<Rightarrow> Inl e
                        | Inr generated \<Rightarrow>
                            Inr (if typeof generated = ''object''
                                 then spread_into combined generated else combined))
                     [] subs of
                Inl e \<Rightarrow> Inl e
              | Inr combined \<Rightarrow> Inr (JObj combined))
         | _ \<Rightarrow> Inl TypeError)
      else if truthy (get s ''oneOf'') \<or> truthy (get s ''anyOf'') then
        generate rt fullDoc seenRefs (get (js_or (get s ''oneOf'') (get s ''anyOf'')) ''0'')
      else if (get s ''type'' = JStr ''object'' \<or> \<not> truthy (get s ''type''))
              \<and> truthy (get s ''properties'') then
        (case forEach_acc
                (\<lambda>obj key.
                   case generate rt fullDoc seenRefs (get (get s ''properties'') key) of
                     Inl e \<Rightarrow> Inl e
                   | Inr v \<Rightarrow> Inr (set_prop obj key v))
                [] (map fst (own_entries (get s ''properties''))) of
           Inl e \<Rightarrow> Inl e
         | Inr obj \<Rightarrow> Inr (JObj obj))
      else if get s ''type'' = JStr ''array'' \<and> truthy (get s ''items'') then
        (case generate rt fullDoc seenRefs (get s ''items'') of
           Inl e \<Rightarrow> Inl e
         | Inr v \<Rightarrow> Inr (JArr [v]))
      else if get s ''example'' \<noteq> JUndef then Inr (get s ''example'')
      else if get s ''default'' \<noteq> JUndef then Inr (get s ''default'')
      else Inr (primitive_sample rt s))"
  by pat_completeness auto

subsection \<open>The in-flight set as mutable state\<close>

text \<open>\<^verbatim>\<open>generate\<close> as the source runs it: a call takes the current set and returns the
  sample together with the set it leaves behind (\<^verbatim>\<open>seenRefs.add\<close> before the recursive
  call on a resolved pointer, \<^verbatim>\<open>seenRefs.delete\<close> after it); a throw abandons the set with
  the whole traversal. The result \<open>None\<close> stands for a recursion that does not return.\<close>

definition bind_st :: "(error + 'a) option \<Rightarrow> ('a \<Rightarrow> (error + 'b) option) \<Rightarrow> (error + 'b) option" where
  "bind_st m f = Option.bind m (\<lambda>r. case r of Inl e \<Rightarrow> Some (Inl e) | Inr x \<Rightarrow> f x)"

fun forEach_st :: "('a \<Rightarrow> 'b \<Rightarrow> (error + 'a) option) \<Rightarrow> 'a \<Rightarrow> 'b list \<Rightarrow> (error + 'a) option" where
  "forEach_st f acc [] = Some (Inr acc)"
| "forEach_st f acc (x # xs) = bind_st (f acc x) (\<lambda>acc'. forEach_st f acc' xs)"

lemma bind_st_mono [partial_function_mono]:
  assumes "mono_option B" and "\<And>y. mono_option (\<lambda>f. C y f)"
  shows "mono_option (\<lambda>f. bind_st (B f) (\<lambda>y. C y f))"
  unfolding bind_st_def
proof (rule bind_mono [OF assms(1)])
  fix y
  show "mono_option (\<lambda>f. case y of Inl e \<Rightarrow> Some (Inl e) | Inr x \<Rightarrow> C x f)"
    by (cases y) (simp_all add: assms(2) option.const_mono)
qed

lemma forEach_st_mono [partial_function_mono]:
  assumes "\<And>acc x. mono_option (\<lambda>f. F f acc x)"
  shows "mono_option (\<lambda>f. forEach_st (F f) acc xs)"
proof (induction xs arbitrary: acc)
  case Nil
  show ?case by (simp add: partial_function_mono)
next
  case (Cons x xs)
  show ?case
    unfolding forEach_st.simps
    by (rule bind_st_mono) (rule assms, rule Cons.IH)
qed

partial_function (option) generate_st ::
  "js_runtime \<Rightarrow> jv \<Rightarrow> jv set \<Rightarrow> jv \<Rightarrow> (error + jv \<times> jv set) option" where
  "generate_st rt fullDoc seenRefs s =
     (if \<not> truthy s then Some (Inr (JNull, seenRefs))
      else if truthy (get s ''$ref'') then
        (if get s ''$ref'' \<in> seenRefs then Some (Inr (JObj [], seenRefs))
         else
           (case resolveRef (get s ''$ref'') fullDoc of
              Inl e \<Rightarrow> Some (Inl e)
            | Inr resolved \<Rightarrow>
                if truthy resolved
                then bind_st (generate_st rt fullDoc (insert (get s ''$ref'') seenRefs) resolved)
                       (\<lambda>(result, seen). Some (Inr (result, seen - {get s ''$ref''})))
                else Some (Inr (JObj [], seenRefs))))
      else if truthy (get s ''allOf'') then
        (case get s ''allOf'' of
           JArr subs \<Rightarrow>
             bind_st
               (forEach_st
                  (\<lambda>(combined, seen) sub.
                     bind_st (generate_st rt fullDoc seen sub)
                       (\<lambda>(generated, seen').
                          Some (Inr (if typeof generated = ''object''
                                     then spread_into combined generated else combined, seen'))))
                  ([], seenRefs) subs)
               (\<lambda>(combined, seen). Some (Inr (JObj combined, seen)))
         | _ \<Rightarrow> Some (Inl TypeError))
      else if truthy (get s ''oneOf'') \<or> truthy (get s ''anyOf'') then
        generate_st rt fullDoc seenRefs (get (js_or (get s ''oneOf'') (get s ''anyOf'')) ''0'')
      else if (get s ''type'' = JStr ''object'' \<or> \<not> truthy (get s ''type''))
              \<and> truthy (get s ''properties'') then
        bind_st
          (forEach_st
             (\<lambda>(obj, seen) key.
                bind_st (generate_st rt fullDoc seen (get (get s ''properties'') key))
                  (\<lambda>(v, seen'). Some (Inr (set_prop obj key v, seen'))))
             ([], seenRefs) (map fst (own_entries (get s ''properties''))))
          (\<lambda>(obj, seen). Some (Inr (JObj obj, seen)))
      else if get s ''type'' = JStr ''array'' \<and> truthy (get s ''items'') then
        bind_st (generate_st rt fullDoc seenRefs (get s ''items''))
          (\<lambda>(v, seen). Some (Inr (JArr [v], seen)))
      else if get s ''example'' \<noteq> JUndef then Some (Inr (get s ''example'', seenRefs))
      else if get s ''default'' \<noteq> JUndef then Some (Inr (get s ''default'', seenRefs))
      else Some (Inr (primitive_sample rt s, seenRefs)))"

text \<open>A result of the pure function, paired with an unchanged set.\<close>

definition keep_state :: "jv set \<Rightarrow> error + 'a \<Rightarrow> error + 'a \<times> jv set" where
  "keep_state seen r = (case r of Inl e \<Rightarrow> Inl e | Inr v \<Rightarrow> Inr (v, seen))"

section \<open>Text of a value\<close>

text \<open>\<^verbatim>\<open>parts.join(sep)\<close> on strings.\<close>

fun join :: "string \<Rightarrow> string list \<Rightarrow> string" where
  "join sep [] = []"
| "join sep [x] = x"
| "join sep (x # y # ys) = x @ sep @ join sep (y # ys)"

text \<open>\<^verbatim>\<open>xs.map(f)\<close> and \<^verbatim>\<open>xs.filter(f)\<close> with a callback that may throw.\<close>

definition map_err :: "('a \<Rightarrow> error + 'b) \<Rightarrow> 'a list \<Rightarrow> error + 'b list" where
  "map_err f xs =
     forEach_acc (\<lambda>acc x. case f x of Inl e \<Rightarrow> Inl e | Inr y \<Rightarrow> Inr (acc @ [y])) [] xs"

definition filter_err :: "('a \<Rightarrow> error + bool) \<Rightarrow> 'a list \<Rightarrow> error + 'a list" where
  "filter_err f xs =
     forEach_acc (\<lambda>acc x. case f x of Inl e \<Rightarrow> Inl e
                          | Inr keep \<Rightarrow> Inr (if keep then acc @ [x] else acc)) [] xs"

text \<open>The string conversion of a template literal \<^verbatim>\<open>`${v}`\<close>. An array is joined with
  commas, \<^verbatim>\<open>null\<close> and \<^verbatim>\<open>undefined\<close> elements as empty text. A parsed object prints as
  \<^verbatim>\<open>[object Object]\<close> through the inherited \<^verbatim>\<open>toString\<close>; when the object has an own
  member named \<^verbatim>\<open>toString\<close>, that member is not callable and the conversion throws.\<close>

fun to_str :: "js_runtime \<Rightarrow> jv \<Rightarrow> error + string" where
  "to_str rt JUndef = Inr ''undefined''"
| "to_str rt JNull = Inr ''null''"
| "to_str rt (JBool b) = Inr (if b then ''true'' else ''false'')"
| "to_str rt (JNum n) = Inr (number_text rt n)"
| "to_str rt (JStr s) = Inr s"
| "to_str rt (JArr xs) =
     (case forEach_acc
             (\<lambda>acc x. if nullish x then Inr (acc @ [[]])
                        else (case to_str rt x of Inl e \<Rightarrow> Inl e | Inr t \<Rightarrow> Inr (acc @ [t])))
             [] xs of
        Inl e \<Rightarrow> Inl e
      | Inr parts \<Rightarrow> Inr (join '','' parts))"
| "to_str rt (JObj kvs) =
     (if ''toString'' \<in> fst ` set kvs then Inl TypeError else Inr ''[object Object]'')"

text \<open>\<^verbatim>\<open>JSON.stringify(sample, null, 2)\<close>: two spaces of indentation per level, a member
  whose value is \<^verbatim>\<open>undefined\<close> left out, an \<^verbatim>\<open>undefined\<close> array element printed as
  \<^verbatim>\<open>null\<close>, and \<^verbatim>\<open>undefined\<close> itself giving \<^verbatim>\<open>undefined\<close>, not a string.\<close>

definition hex_digit :: "nat \<Rightarrow> char" where
  "hex_digit d = ''0123456789abcdef'' ! d"

definition quote_char :: "char \<Rightarrow> string" where
  "quote_char c =
     (if c = CHR 0x22 then [CHR 0x5C, CHR 0x22]
      else if c = CHR 0x5C then [CHR 0x5C, CHR 0x5C]
      else if c = CHR 0x08 then [CHR 0x5C, CHR ''b'']
      else if c = CHR 0x09 then [CHR 0x5C, CHR ''t'']
      else if c = CHR 0x0A then [CHR 0x5C, CHR ''n'']
      else if c = CHR 0x0C then [CHR 0x5C, CHR ''f'']
      else if c = CHR 0x0D then [CHR 0x5C, CHR ''r'']
      else if (of_char c :: nat) < 32 then
        [CHR 0x5C, CHR ''u'', CHR ''0'', CHR ''0'',
         hex_digit (of_char c div 16), hex_digit (of_char c mod 16)]
      else [c])"

definition quote :: "string \<Rightarrow> string" where
  "quote s = [CHR 0x22] @ concat (map quote_char s) @ [CHR 0x22]"

fun stringify_at :: "js_runtime \<Rightarrow> string \<Rightarrow> jv \<Rightarrow> string option" where
  "stringify_at rt indent JUndef = None"
| "stringify_at rt indent JNull = Some ''null''"
| "stringify_at rt indent (JBool b) = Some (if b then ''true'' else ''false'')"
| "stringify_at rt indent (JNum n) = Some (number_text rt n)"
| "stringify_at rt indent (JStr s) = Some (quote s)"
| "stringify_at rt indent (JArr xs) =
     (if xs = [] then Some ''[]''
      else Some ([CHR ''['', CHR 0x0A] @ indent @ ''  '' @
                 join ([CHR '','', CHR 0x0A] @ indent @ ''  '')
                   (map (\<lambda>x. case stringify_at rt (indent @ ''  '') x of
                                 None \<Rightarrow> ''null'' | Some t \<Rightarrow> t) xs) @
                 [CHR 0x0A] @ indent @ '']''))"
| "stringify_at rt indent (JObj kvs) =
     (let partial = concat (map (\<lambda>kv. case stringify_at rt (indent @ ''  '') (snd kv) of
                                          None \<Rightarrow> []
                                        | Some t \<Rightarrow> [quote (fst kv) @ '': '' @ t]) kvs)
      in if partial = [] then Some ''{}''
         else Some ([CHR ''{'', CHR 0x0A] @ indent @ ''  '' @
                    join ([CHR '','', CHR 0x0A] @ indent @ ''  '') partial @
                    [CHR 0x0A] @ indent @ ''}''))"

definition JSON_stringify :: "js_runtime \<Rightarrow> jv \<Rightarrow> jv" where
  "JSON_stringify rt v = (case stringify_at rt [] v of None \<Rightarrow> JUndef | Some t \<Rightarrow> JStr t)"

section \<open>generateSampleJson\<close>

text \<open>The guard on a falsy schema is outside the \<^verbatim>\<open>try\<close>; the traversal and the rendering
  are inside it, and the handler returns the fixed text.\<close>

definition generateSampleJson :: "js_runtime \<Rightarrow> jv \<Rightarrow> jv \<Rightarrow> jv set \<Rightarrow> error + jv" where
  "generateSampleJson rt schema fullDoc seenRefs =
     (if \<not> truthy schema then Inr (JStr [])
      else try_catch
             (bind_err (generate rt fullDoc seenRefs schema)
                (\<lambda>sample. Inr (JSON_stringify rt sample)))
             (\<lambda>e. Inr (JStr ''Check Swagger Schema'')))"

section \<open>parseSwagger\<close>

text \<open>The interface \<^verbatim>\<open>Endpoint\<close>. \<^verbatim>\<open>path\<close> and \<^verbatim>\<open>method\<close> are keys of the document,
  hence strings; the other fields hold whatever the document has there.\<close>

record Endpoint =
  path :: string
  "method" :: string
  summary :: jv
  parameters :: jv
  responses :: jv
  requestBody :: jv
  operationId :: jv
  tags :: jv

text \<open>\<^verbatim>\<open>method.toUpperCase()\<close> on ASCII text.\<close>

definition upper_char :: "char \<Rightarrow> char" where
  "upper_char c =
     (case map_of (zip ''abcdefghijklmnopqrstuvwxyz'' ''ABCDEFGHIJKLMNOPQRSTUVWXYZ'') c of
        Some u \<Rightarrow> u | None \<Rightarrow> c)"

definition toUpperCase :: "string \<Rightarrow> string" where
  "toUpperCase s = map upper_char s"

text \<open>The object literal pushed for one operation. Reading \<^verbatim>\<open>op.summary\<close> throws when
  \<^verbatim>\<open>op\<close> is \<^verbatim>\<open>null\<close>.\<close>

definition endpoint_of :: "string \<Rightarrow> string \<Rightarrow> jv \<Rightarrow> error + Endpoint" where
  "endpoint_of p m op =
     (if nullish op then Inl TypeError
      else Inr \<lparr> path = p,
                 method = toUpperCase m,
                 summary = js_or (js_or (get op ''summary'') (get op ''description''))
                                 (JStr (toUpperCase m @ '' '' @ p)),
                 parameters = js_or (get op ''parameters'') (JArr []),
                 responses = js_or (get op ''responses'') (JObj []),
                 requestBody = get op ''requestBody'',
                 operationId = get op ''operationId'',
                 tags = get op ''tags'' \<rparr>)"

text \<open>The inner loop over the methods of one path, and the outer loop over the paths.
  \<^verbatim>\<open>Object.keys(paths[path])\<close> throws when the path entry is \<^verbatim>\<open>null\<close>.\<close>

definition path_endpoints :: "jv \<Rightarrow> Endpoint list \<Rightarrow> string \<Rightarrow> error + Endpoint list" where
  "path_endpoints paths endpoints p =
     bind_err (Object_keys (get paths p))
       (\<lambda>methods.
          forEach_acc
            (\<lambda>acc m. bind_err (endpoint_of p m (get (get paths p) m))
                         (\<lambda>ep. Inr (acc @ [ep])))
            endpoints methods)"

definition parseSwagger :: "jv \<Rightarrow> error + Endpoint list" where
  "parseSwagger data =
     bind_err (getProp data ''paths'')
       (\<lambda>ps. bind_err (Object_keys (js_or ps (JObj [])))
                (\<lambda>keys. forEach_acc (path_endpoints (js_or ps (JObj []))) [] keys))"

section \<open>generateTestCases\<close>

record TestCase =
  Test_Case_ID :: string
  Endpoint :: string
  Method :: string
  Test_Scenario :: string
  Test_Steps :: string
  Prerequisite :: string
  Test_Data :: string
  Expected_Result :: string
  Actual_Result :: string
  Status :: string

text \<open>The ten fields of a pushed record; \<^verbatim>\<open>`TC-${idCounter++}`\<close> reads the counter.\<close>

definition test_case ::
  "Endpoint \<Rightarrow> string \<Rightarrow> string \<Rightarrow> string \<Rightarrow> string \<Rightarrow> string \<Rightarrow> nat \<Rightarrow> TestCase" where
  "test_case ep scenario steps prerequisite testData expected idCounter =
     \<lparr> Test_Case_ID = ''TC-'' @ dec idCounter,
       Endpoint = path ep,
       Method = method ep,
       Test_Scenario = scenario,
       Test_Steps = steps,
       Prerequisite = prerequisite,
       Test_Data = testData,
       Expected_Result = expected,
       Actual_Result = [],
       Status = [] \<rparr>"

text \<open>\<^verbatim>\<open>testCases.push({... `TC-${idCounter++}` ...})\<close> on the pair of the array and the
  counter.\<close>

definition push :: "TestCase list \<times> nat \<Rightarrow> (nat \<Rightarrow> TestCase) \<Rightarrow> TestCase list \<times> nat" where
  "push st mk = (fst st @ [mk (snd st)], Suc (snd st))"

definition successStatus :: "Endpoint \<Rightarrow> string" where
  "successStatus ep = (if method ep = ''POST'' then ''201 Created'' else ''200 OK'')"

definition prepare :: "Endpoint \<Rightarrow> string" where
  "prepare ep = ''1. Prepare '' @ method ep @ '' request for '' @ path ep @ [CHR 0x0A]"

definition positive_case :: "Endpoint \<Rightarrow> string \<Rightarrow> nat \<Rightarrow> TestCase" where
  "positive_case ep testData =
     test_case ep
       (''Verify successful '' @ method ep @ '' request to '' @ path ep)
       (prepare ep @ ''2. Send request with valid parameters/body'' @ [CHR 0x0A] @
        ''3. Verify response status and body'')
       ''API Service is up and running''
       testData
       (''Response status should be '' @ successStatus ep @
        '' and body should contain expected fields.'')"

definition unauthorized_case :: "Endpoint \<Rightarrow> nat \<Rightarrow> TestCase" where
  "unauthorized_case ep =
     test_case ep
       (''Verify '' @ method ep @ '' request to '' @ path ep @ '' without authentication'')
       (prepare ep @ ''2. Send request without Auth token'' @ [CHR 0x0A] @
        ''3. Verify response status'')
       ''Endpoint requires authentication''
       ''No Auth Header''
       ''Response status should be 401 Unauthorized.''"

definition missing_case :: "Endpoint \<Rightarrow> string \<Rightarrow> nat \<Rightarrow> TestCase" where
  "missing_case ep name =
     test_case ep
       (''Verify '' @ method ep @ '' request to '' @ path ep @
        '' with missing mandatory parameters'')
       (prepare ep @ ''2. Remove mandatory parameter: '' @ name @ [CHR 0x0A] @
        ''3. Send request'' @ [CHR 0x0A] @ ''4. Verify error response'')
       ''API Service is up and running''
       (''Missing '' @ name)
       ''Response status should be 400 Bad Request with validation error message.''"

definition content_type_case :: "Endpoint \<Rightarrow> nat \<Rightarrow> TestCase" where
  "content_type_case ep =
     test_case ep
       (''Verify '' @ method ep @ '' request to '' @ path ep @
        '' with unsupported Content-Type'')
       (prepare ep @ ''2. Set Content-Type to '' @ [CHR 0x27] @ ''text/plain'' @ [CHR 0x27] @
        [CHR 0x0A] @ ''3. Send request'' @ [CHR 0x0A] @ ''4. Verify error response'')
       ''API Service is up and running''
       ''Content-Type: text/plain''
       ''Response status should be 415 Unsupported Media Type.''"

definition malformed_case :: "Endpoint \<Rightarrow> nat \<Rightarrow> TestCase" where
  "malformed_case ep =
     test_case ep
       (''Verify '' @ method ep @ '' request to '' @ path ep @ '' with malformed JSON body'')
       (prepare ep @ ''2. Provide malformed JSON string in body'' @ [CHR 0x0A] @
        ''3. Send request'' @ [CHR 0x0A] @ ''4. Verify error response'')
       ''API Service is up and running''
       (''{ '' @ [CHR 0x22] @ ''invalid'' @ [CHR 0x22] @ '': json }'')
       ''Response status should be 400 Bad Request.''"

definition invalid_types_case :: "Endpoint \<Rightarrow> nat \<Rightarrow> TestCase" where
  "invalid_types_case ep =
     test_case ep
       (''Verify '' @ method ep @ '' request to '' @ path ep @ '' with invalid data types'')
       (prepare ep @ ''2. Provide string where integer is expected (or vice versa)'' @
        [CHR 0x0A] @ ''3. Send request'' @ [CHR 0x0A] @ ''4. Verify error response'')
       ''API Service is up and running''
       ''Invalid data types for parameters''
       ''Response status should be 400 Bad Request or 422 Unprocessable Entity.''"

text \<open>\<^verbatim>\<open>`${p.name}=${p.example || 'value'}`\<close>: reading a property of a \<^verbatim>\<open>null\<close> parameter
  throws.\<close>

definition param_text :: "js_runtime \<Rightarrow> jv \<Rightarrow> error + string" where
  "param_text rt p =
     bind_err (getProp p ''name'') (\<lambda>name.
     bind_err (to_str rt name) (\<lambda>n.
     bind_err (getProp p ''example'') (\<lambda>example.
     bind_err (to_str rt (js_or example (JStr ''value''))) (\<lambda>v.
     Inr (n @ ''='' @ v)))))"

text \<open>The schema of the JSON request body, through the optional chain
  \<^verbatim>\<open>ep.requestBody?.content?.['application/json']?.schema\<close>; when it is truthy the plain
  chain of the next line reads the same value.\<close>

definition body_schema :: "Endpoint \<Rightarrow> jv" where
  "body_schema ep =
     getOpt (getOpt (getOpt (requestBody ep) ''content'') ''application/json'') ''schema''"

definition testData_of :: "js_runtime \<Rightarrow> jv \<Rightarrow> Endpoint \<Rightarrow> jv list \<Rightarrow> error + string" where
  "testData_of rt fullDoc ep params =
     (if truthy (body_schema ep) then
        bind_err (generateSampleJson rt (body_schema ep) fullDoc {}) (\<lambda>sample.
        bind_err (to_str rt sample) (\<lambda>t.
        Inr (''Request Body:'' @ [CHR 0x0A] @ t)))
      else if length params > 0 then
        bind_err (map_err (param_text rt) params) (\<lambda>texts.
        Inr (''Query/Path Params: '' @ join '', '' texts))
      else Inr ''Valid parameters as per Swagger spec'')"

text \<open>The body of \<^verbatim>\<open>endpoints.forEach\<close>, on the pair of \<^verbatim>\<open>testCases\<close> and
  \<^verbatim>\<open>idCounter\<close>. \<^verbatim>\<open>ep.parameters.filter\<close> is called for every endpoint and exists only
  on an array: with any other value in \<^verbatim>\<open>parameters\<close> the body throws a TypeError.\<close>

definition endpoint_cases ::
  "js_runtime \<Rightarrow> jv \<Rightarrow> TestCase list \<times> nat \<Rightarrow> Endpoint \<Rightarrow> error + TestCase list \<times> nat" where
  "endpoint_cases rt fullDoc st ep =
     (case parameters ep of
        JArr params \<Rightarrow>
          bind_err (testData_of rt fullDoc ep params) (\<lambda>testData.
          let st1 = push st (positive_case ep testData);
              st2 = push st1 (unauthorized_case ep)
          in
          bind_err (filter_err (\<lambda>p. bind_err (getProp p ''required'') (\<lambda>r. Inr (truthy r)))
                      params) (\<lambda>mandatoryParams.
          bind_err
            (case mandatoryParams of
               [] \<Rightarrow> Inr st2
             | p # rest \<Rightarrow>
                 bind_err (to_str rt (get p ''name'')) (\<lambda>name.
                 Inr (push st2 (missing_case ep name)))) (\<lambda>st3.
          let st4 = (if method ep = ''POST'' \<or> method ep = ''PUT'' \<or> method ep = ''PATCH''
                     then push (push st3 (content_type_case ep)) (malformed_case ep)
                     else st3)
          in Inr (push st4 (invalid_types_case ep)))))
      | _ \<Rightarrow> Inl TypeError)"

definition generateTestCases :: "js_runtime \<Rightarrow> Endpoint list \<Rightarrow> jv \<Rightarrow> error + TestCase list" where
  "generateTestCases rt endpoints fullDoc =
     bind_err (forEach_acc (endpoint_cases rt fullDoc) ([], 1) endpoints)
       (\<lambda>st. Inr (fst st))"

section \<open>Auxiliary definitions for the properties\<close>

text \<open>A runtime for closed examples: a fixed instant, and numbers printed by their integer
  part.\<close>

definition integer_text :: "rat \<Rightarrow> string" where
  "integer_text r = (if r < 0 then ''-'' else []) @ dec (nat \<lfloor>\<bar>r\<bar>\<rfloor>)"

definition example_runtime :: js_runtime where
  "example_runtime = \<lparr> now_iso = ''2024-01-15T10:30:00.000Z'', number_text = integer_text \<rparr>"

definition self_doc :: jv where
  "self_doc = JObj [(''A'', JObj [(''properties'',
       JObj [(''self'', JObj [(''$ref'', JStr ''#/A'')])])])]"

text \<open>The merge of allOf samples as a mapping from keys to values. \<open>merged_map\<close> is what
  the loop of the service computes: the entries of an object sample and of an array sample
  (its elements under their indices), nothing for any other sample, a later entry
  overwriting an earlier one. \<open>spec_allOf_merge\<close> follows the wording "non-object results
  are dropped", with an object being a mapping and not an array.\<close>

definition merge_entries :: "jv \<Rightarrow> (string \<times> jv) list" where
  "merge_entries v =
     (case v of
        JObj kvs \<Rightarrow> kvs
      | JArr xs \<Rightarrow> zip (index_keys (length xs)) xs
      | _ \<Rightarrow> [])"

definition overwrite :: "(string \<rightharpoonup> jv) \<Rightarrow> (string \<times> jv) list \<Rightarrow> (string \<rightharpoonup> jv)" where
  "overwrite m kvs = foldl (\<lambda>m kv. m(fst kv \<mapsto> snd kv)) m kvs"

definition merged_map :: "jv list \<Rightarrow> (string \<rightharpoonup> jv)" where
  "merged_map samples = foldl (\<lambda>m v. overwrite m (merge_entries v)) Map.empty samples"

definition spec_allOf_merge :: "jv list \<Rightarrow> (string \<rightharpoonup> jv)" where
  "spec_allOf_merge samples =
     foldl (\<lambda>m v. case v of JObj kvs \<Rightarrow> overwrite m kvs | _ \<Rightarrow> m) Map.empty samples"

definition merge_step :: "(string \<times> jv) list \<Rightarrow> jv \<Rightarrow> (string \<times> jv) list" where
  "merge_step combined generated =
     (if typeof generated = ''object'' then spread_into combined generated else combined)"

definition ab_schema :: jv where
  "ab_schema = JObj [(''properties'', JObj [(''a'', JObj [(''example'', JNum 1)]),
                                             (''b'', JObj [(''example'', JNum 1)])])]"

definition bc_schema :: jv where
  "bc_schema = JObj [(''properties'', JObj [(''b'', JObj [(''example'', JNum 2)]),
                                             (''c'', JObj [(''example'', JNum 2)])])]"

text \<open>A document with one operation that has no optional field.\<close>

definition pets_doc :: jv where
  "pets_doc = JObj [(''paths'', JObj [(''/pets'', JObj [(''get'', JObj [])])])]"

text \<open>The number of cases of one operation: three, one more when some parameter has a
  truthy \<^verbatim>\<open>required\<close>, two more for POST, PUT and PATCH. \<open>spec_case_count\<close> follows the
  wording "has required = true".\<close>

definition mandatory_exists :: "Endpoint \<Rightarrow> bool" where
  "mandatory_exists ep =
     (case parameters ep of
        JArr params \<Rightarrow> list_ex (\<lambda>p. truthy (get p ''required'')) params
      | _ \<Rightarrow> False)"

definition case_count :: "Endpoint \<Rightarrow> nat" where
  "case_count ep =
     3 + (if mandatory_exists ep then 1 else 0)
       + (if method ep = ''POST'' \<or> method ep = ''PUT'' \<or> method ep = ''PATCH'' then 2 else 0)"

definition spec_case_count :: "Endpoint \<Rightarrow> nat" where
  "spec_case_count ep =
     3 + (if (case parameters ep of
                JArr params \<Rightarrow> list_ex (\<lambda>p. get p ''required'' = JBool True) params
              | _ \<Rightarrow> False) then 1 else 0)
       + (if method ep = ''POST'' \<or> method ep = ''PUT'' \<or> method ep = ''PATCH'' then 2 else 0)"

text \<open>The records pushed for one operation, each still waiting for its identifier, and
  their numbering from a counter value. \<open>positive_index\<close> is the position of the positive
  case of the \<open>i\<close>-th operation in the output.\<close>

definition block :: "Endpoint \<Rightarrow> string \<Rightarrow> string option \<Rightarrow> (nat \<Rightarrow> TestCase) list" where
  "block ep testData missing =
     [positive_case ep testData, unauthorized_case ep]
     @ (case missing of None \<Rightarrow> [] | Some name \<Rightarrow> [missing_case ep name])
     @ (if method ep = ''POST'' \<or> method ep = ''PUT'' \<or> method ep = ''PATCH''
        then [content_type_case ep, malformed_case ep] else [])
     @ [invalid_types_case ep]"

fun number_from :: "nat \<Rightarrow> (nat \<Rightarrow> TestCase) list \<Rightarrow> TestCase list" where
  "number_from n [] = []"
| "number_from n (mk # mks) = mk n # number_from (Suc n) mks"

definition is_block :: "Endpoint \<Rightarrow> (nat \<Rightarrow> TestCase) list \<Rightarrow> bool" where
  "is_block ep mks =
     (\<exists>testData missing. (missing \<noteq> None \<longleftrightarrow> mandatory_exists ep) \<and> mks = block ep testData missing)"

definition positive_index :: "Endpoint list \<Rightarrow> nat \<Rightarrow> nat" where
  "positive_index endpoints i = sum_list (map case_count (take i endpoints))"

text \<open>Parameters on which no read and no string conversion throws: none is \<^verbatim>\<open>null\<close>,
  and \<^verbatim>\<open>name\<close> and \<^verbatim>\<open>example\<close> are not objects or arrays.\<close>

fun scalar :: "jv \<Rightarrow> bool" where
  "scalar (JArr xs) = False"
| "scalar (JObj kvs) = False"
| "scalar v = True"

definition plain_param :: "jv \<Rightarrow> bool" where
  "plain_param p = (\<not> nullish p \<and> scalar (get p ''name'') \<and> scalar (get p ''example''))"

definition plain_parameters :: "Endpoint \<Rightarrow> bool" where
  "plain_parameters ep =
     (case parameters ep of JArr params \<Rightarrow> list_all plain_param params | _ \<Rightarrow> False)"

text \<open>Two operations, the first with a required parameter; and an operation whose only
  parameter has the string \<^verbatim>\<open>"false"\<close> as \<^verbatim>\<open>required\<close>.\<close>

definition pets_endpoints :: "Endpoint list" where
  "pets_endpoints =
     [\<lparr> path = ''/pets'', method = ''GET'', summary = JStr ''GET /pets'',
         parameters = JArr [JObj [(''name'', JStr ''limit''), (''required'', JBool True)]],
         responses = JObj [], requestBody = JUndef, operationId = JUndef, tags = JUndef \<rparr>,
      \<lparr> path = ''/pets'', method = ''POST'', summary = JStr ''POST /pets'',
         parameters = JArr [], responses = JObj [], requestBody = JUndef,
         operationId = JUndef, tags = JUndef \<rparr>]"

definition quoted_required :: Endpoint where
  "quoted_required =
     \<lparr> path = ''/pets'', method = ''GET'', summary = JStr ''GET /pets'',
       parameters = JArr [JObj [(''name'', JStr ''limit''), (''required'', JStr ''false'')]],
       responses = JObj [], requestBody = JUndef, operationId = JUndef, tags = JUndef \<rparr>"

text \<open>The two measures of the recursion of \<^verbatim>\<open>generate\<close>: the size of a node, and
  the pointers (values under the key \<^verbatim>\<open>$ref\<close>) that occur in a value.\<close>

fun jsize :: "jv \<Rightarrow> nat" where
  "jsize (JObj kvs) = Suc (sum_list (map (\<lambda>kv. jsize (snd kv)) kvs))"
| "jsize (JArr xs) = Suc (sum_list (map jsize xs))"
| "jsize v = 0"

fun refs :: "jv \<Rightarrow> jv set" where
  "refs (JObj kvs) = {x. (''$ref'', x) \<in> set kvs} \<union> (\<Union>kv \<in> set kvs. refs (snd kv))"
| "refs (JArr xs) = (\<Union>x \<in> set xs. refs x)"
| "refs v = {}"

section \<open>Termination of generate\<close>

text \<open>Following a pointer puts it in flight, so the pointers of the document and of the
  schema that are not in flight become fewer; every other recursive call is on a part of
  the node, which is smaller and holds no new pointer.\<close>

lemma digit_char_in: "d < 10 \<Longrightarrow> digit_char d \<in> set ''0123456789''"
  unfolding digit_char_def by (rule nth_mem) simp

lemma dec_digits: "set (dec n) \<subseteq> set ''0123456789''"
proof (induction n rule: dec.induct)
  case (1 n)
  show ?case
  proof (cases "n < 10")
    case True
    then show ?thesis using digit_char_in [of n] by (subst dec.simps) simp
  next
    case False
    have "digit_char (n mod 10) \<in> set ''0123456789''" by (rule digit_char_in) simp
    with False "1.IH" show ?thesis by (subst dec.simps) simp
  qed
qed

lemma index_keys_digits: "k \<in> set (index_keys n) \<Longrightarrow> set k \<subseteq> set ''0123456789''"
  using dec_digits by (auto simp: index_keys_def)

lemma member_jsize: "(k, x) \<in> set kvs \<Longrightarrow> jsize x < jsize (JObj kvs)"
proof -
  assume "(k, x) \<in> set kvs"
  then have "jsize (snd (k, x)) \<in> set (map (\<lambda>kv. jsize (snd kv)) kvs)" by force
  then have "jsize x \<le> sum_list (map (\<lambda>kv. jsize (snd kv)) kvs)"
    using member_le_sum_list by fastforce
  then show ?thesis by simp
qed

lemma elem_jsize: "x \<in> set xs \<Longrightarrow> jsize x < jsize (JArr xs)"
proof -
  assume "x \<in> set xs"
  then have "jsize x \<le> sum_list (map jsize xs)"
    using member_le_sum_list [of "jsize x" "map jsize xs"] by simp
  then show ?thesis by simp
qed

lemma member_refs: "(k, x) \<in> set kvs \<Longrightarrow> refs x \<subseteq> refs (JObj kvs)"
  by force

lemma elem_refs: "x \<in> set xs \<Longrightarrow> refs x \<subseteq> refs (JArr xs)"
  by auto

lemma finite_refs: "finite (refs v)"
proof (induction v)
  case (JObj kvs)
  have "{x. (''$ref'', x) \<in> set kvs} \<subseteq> snd ` set kvs" by force
  then have "finite {x. (''$ref'', x) \<in> set kvs}" by (rule finite_subset) simp
  moreover have "finite (\<Union>kv \<in> set kvs. refs (snd kv))"
    using JObj by (auto simp: snds.simps)
  ultimately show ?case by simp
qed auto

lemma get_smaller: "jsize (get v k) \<le> jsize v \<and> refs (get v k) \<subseteq> refs v"
proof (cases "map_of (own_entries v) k")
  case None
  then show ?thesis by (cases v) (auto simp: get_def)
next
  case (Some x)
  then have mem: "(k, x) \<in> set (own_entries v)" by (rule map_of_SomeD)
  have gx: "get v k = x" using Some by (simp add: get_def)
  show ?thesis
  proof (cases v)
    case (JObj kvs)
    with mem member_jsize [of k x kvs] member_refs [of k x kvs] gx show ?thesis
      by (simp add: less_imp_le)
  next
    case (JArr xs)
    with mem have "x \<in> set xs" by (auto dest: set_zip_rightD)
    with JArr elem_jsize [of x xs] elem_refs [of x xs] gx show ?thesis
      by (simp add: less_imp_le)
  next
    case (JStr s)
    with mem have "x \<in> set (map (\<lambda>c. JStr [c]) s)" by (auto dest: set_zip_rightD)
    then obtain c where "x = JStr [c]" by auto
    with JStr gx show ?thesis by simp
  qed (use mem in auto)
qed

lemma get_named:
  assumes "\<not> set k \<subseteq> set ''0123456789''" and "k \<noteq> ''length''" and "get v k \<noteq> JUndef"
  shows "\<exists>kvs. v = JObj kvs \<and> (k, get v k) \<in> set kvs"
proof (cases "map_of (own_entries v) k")
  case None
  with assms show ?thesis by (simp add: get_def)
next
  case (Some x)
  then have mem: "(k, x) \<in> set (own_entries v)" by (rule map_of_SomeD)
  have gx: "get v k = x" using Some by (simp add: get_def)
  show ?thesis
  proof (cases v)
    case (JObj kvs)
    with mem gx show ?thesis by simp
  next
    case (JArr xs)
    with mem have "k \<in> set (index_keys (length xs))" by (auto dest: set_zip_leftD)
    with assms(1) index_keys_digits show ?thesis by blast
  next
    case (JStr s)
    with mem have "k \<in> set (index_keys (length s))" by (auto dest: set_zip_leftD)
    with assms(1) index_keys_digits show ?thesis by blast
  qed (use mem in auto)
qed

lemma get_named_lt:
  assumes "\<not> set k \<subseteq> set ''0123456789''" and "k \<noteq> ''length''" and "get v k \<noteq> JUndef"
  shows "jsize (get v k) < jsize v" and "refs (get v k) \<subseteq> refs v"
  using get_named [OF assms] member_jsize get_smaller by auto

lemma walk_refs: "walk v parts = Inr r \<Longrightarrow> refs r \<subseteq> refs v"
proof (induction parts arbitrary: v)
  case Nil
  then show ?case by simp
next
  case (Cons p ps)
  show ?case
  proof (cases "nullish v")
    case True
    with Cons.prems show ?thesis by (simp add: getProp_def)
  next
    case False
    show ?thesis
    proof (cases "get v p = JUndef")
      case True
      with False Cons.prems show ?thesis by (auto simp: getProp_def)
    next
      case nz: False
      with False Cons.prems have "walk (get v p) ps = Inr r" by (simp add: getProp_def)
      then have "refs r \<subseteq> refs (get v p)" by (rule Cons.IH)
      with get_smaller [of v p] show ?thesis by blast
    qed
  qed
qed

lemma resolveRef_refs: "resolveRef ref doc = Inr r \<Longrightarrow> refs r \<subseteq> refs doc"
  by (cases ref) (auto simp: resolveRef_def dest: walk_refs split: if_splits)

lemma measure_sub:
  assumes "refs x \<subseteq> refs s" and "jsize x < jsize s"
  shows "card (refs doc \<union> refs x - seen) < card (refs doc \<union> refs s - seen) \<or>
         card (refs doc \<union> refs x - seen) = card (refs doc \<union> refs s - seen) \<and> jsize x < jsize s"
proof -
  have "refs doc \<union> refs x - seen \<subseteq> refs doc \<union> refs s - seen" using assms(1) by blast
  then have "card (refs doc \<union> refs x - seen) \<le> card (refs doc \<union> refs s - seen)"
    by (intro card_mono) (simp_all add: finite_refs)
  with assms(2) show ?thesis by linarith
qed

lemma measure_ref:
  assumes "truthy (get s ''$ref'')" and "get s ''$ref'' \<notin> seen"
    and "resolveRef (get s ''$ref'') doc = Inr b"
  shows "card (refs doc \<union> refs b - insert (get s ''$ref'') seen)
         < card (refs doc \<union> refs s - seen)"
proof -
  have nz: "get s ''$ref'' \<noteq> JUndef" using assms(1) by auto
  have "\<exists>kvs. s = JObj kvs \<and> (''$ref'', get s ''$ref'') \<in> set kvs"
    by (rule get_named) (use nz in simp_all)
  then have inr: "get s ''$ref'' \<in> refs s" by auto
  have sub: "refs b \<subseteq> refs doc" using assms(3) by (rule resolveRef_refs)
  have "refs doc \<union> refs b - insert (get s ''$ref'') seen \<subset> refs doc \<union> refs s - seen"
    using inr sub assms(2) by blast
  then show ?thesis by (intro psubset_card_mono) (simp_all add: finite_refs)
qed



lemma named_sub:
  assumes "k \<in> {''$ref'', ''allOf'', ''oneOf'', ''anyOf'', ''properties'', ''items''}"
    and "get s k \<noteq> JUndef"
  shows "jsize (get s k) < jsize s \<and> refs (get s k) \<subseteq> refs s"
proof -
  have a: "\<not> set k \<subseteq> set ''0123456789''" using assms(1) by auto
  have b: "k \<noteq> ''length''" using assms(1) by auto
  show ?thesis using get_named_lt [OF a b assms(2)] by simp
qed

lemma generate_terminates: "All generate_dom"
proof (relation "measures [\<lambda>(rt, doc, seen, s). card ((refs doc \<union> refs s) - seen),
                           \<lambda>(rt, doc, seen, s). jsize s]", goal_cases)
  case 1
  show ?case by simp
next
  case (2 rt fullDoc seenRefs s b)
  then show ?case using measure_ref [of s seenRefs fullDoc b] by simp
next
  case (3 rt fullDoc seenRefs s subs acc x)
  have "jsize (get s ''allOf'') < jsize s \<and> refs (get s ''allOf'') \<subseteq> refs s"
    by (rule named_sub) (use 3 in simp_all)
  with 3 elem_jsize [of x subs] elem_refs [of x subs]
  have "refs x \<subseteq> refs s" "jsize x < jsize s" by auto
  then show ?case using measure_sub [of x s fullDoc seenRefs] by simp
next
  case (4 rt fullDoc seenRefs s)
  let ?l = "js_or (get s ''oneOf'') (get s ''anyOf'')"
  have "jsize ?l < jsize s \<and> refs ?l \<subseteq> refs s"
  proof (cases "truthy (get s ''oneOf'')")
    case True
    then have "get s ''oneOf'' \<noteq> JUndef" by auto
    then have "jsize (get s ''oneOf'') < jsize s \<and> refs (get s ''oneOf'') \<subseteq> refs s"
      by (intro named_sub) simp_all
    with True show ?thesis by (simp add: js_or_def)
  next
    case False
    with 4 have "truthy (get s ''anyOf'')" by simp
    then have "get s ''anyOf'' \<noteq> JUndef" by auto
    then have "jsize (get s ''anyOf'') < jsize s \<and> refs (get s ''anyOf'') \<subseteq> refs s"
      by (intro named_sub) simp_all
    with False show ?thesis by (simp add: js_or_def)
  qed
  with get_smaller [of ?l "''0''"]
  have "refs (get ?l ''0'') \<subseteq> refs s" "jsize (get ?l ''0'') < jsize s" by auto
  then show ?case using measure_sub [of "get ?l ''0''" s fullDoc seenRefs] by simp
next
  case (5 rt fullDoc seenRefs s acc key)
  have "get s ''properties'' \<noteq> JUndef" using 5 by auto
  then have "jsize (get s ''properties'') < jsize s \<and> refs (get s ''properties'') \<subseteq> refs s"
    by (intro named_sub) simp_all
  with get_smaller [of "get s ''properties''" key]
  have "refs (get (get s ''properties'') key) \<subseteq> refs s"
       "jsize (get (get s ''properties'') key) < jsize s" by auto
  then show ?case
    using measure_sub [of "get (get s ''properties'') key" s fullDoc seenRefs] by simp
next
  case (6 rt fullDoc seenRefs s)
  have "get s ''items'' \<noteq> JUndef" using 6 by auto
  then have "jsize (get s ''items'') < jsize s \<and> refs (get s ''items'') \<subseteq> refs s"
    by (intro named_sub) simp_all
  then show ?case using measure_sub [of "get s ''items''" s fullDoc seenRefs] by simp
qed

termination generate
  by (rule generate_terminates)


declare generate.simps [simp del]

section \<open>The mutable set is restored\<close>

text \<open>The traversal with the mutable set returns on every input, with the sample that
  \<open>generate\<close> computes and with the set it was given: a pointer is added only when it is
  not in the set, so deleting it after the call restores the set.\<close>

lemma bind_st_simps [simp]:
  "bind_st None k = None"
  "bind_st (Some (Inl e)) k = Some (Inl e)"
  "bind_st (Some (Inr x)) k = k x"
  by (simp_all add: bind_st_def)

lemma bind_st_keep:
  "bind_st (Some (keep_state seen r)) k = (case r of Inl e \<Rightarrow> Some (Inl e) | Inr v \<Rightarrow> k (v, seen))"
  by (cases r) (simp_all add: bind_st_def keep_state_def)

lemma forEach_st_keep:
  assumes "\<And>x. x \<in> set xs \<Longrightarrow> g seen0 x = Some (keep_state seen0 (f x))"
  shows "forEach_st (\<lambda>(acc, seen) x. bind_st (g seen x) (\<lambda>(v, seen'). Some (Inr (h acc x v, seen'))))
           (a, seen0) xs
         = Some (keep_state seen0
               (forEach_acc (\<lambda>acc x. case f x of Inl e \<Rightarrow> Inl e | Inr v \<Rightarrow> Inr (h acc x v)) a xs))"
  using assms
proof (induction xs arbitrary: a)
  case Nil
  then show ?case by (simp add: keep_state_def)
next
  case (Cons x xs)
  have gx: "g seen0 x = Some (keep_state seen0 (f x))" using Cons.prems by simp
  show ?case
  proof (cases "f x")
    case (Inl e)
    then show ?thesis by (simp add: gx keep_state_def)
  next
    case (Inr v)
    have "forEach_st (\<lambda>(acc, seen) x. bind_st (g seen x) (\<lambda>(v, seen'). Some (Inr (h acc x v, seen'))))
           (h a x v, seen0) xs
         = Some (keep_state seen0
               (forEach_acc (\<lambda>acc x. case f x of Inl e \<Rightarrow> Inl e | Inr v \<Rightarrow> Inr (h acc x v))
                  (h a x v) xs))"
      by (rule Cons.IH) (simp add: Cons.prems)
    with Inr show ?thesis by (simp add: gx keep_state_def)
  qed
qed

lemma generate_st_eq:
  "generate_st rt fullDoc seen s = Some (keep_state seen (generate rt fullDoc seen s))"
proof (induction rt fullDoc seen s rule: generate.induct)
  case (1 rt fullDoc seen s)
  show ?case
  proof (cases "truthy s")
    case False
    then show ?thesis
      by (subst generate_st.simps, subst generate.simps) (simp add: keep_state_def)
  next
    case ts: True
    show ?thesis
    proof (cases "truthy (get s ''$ref'')")
      case tr: True
      show ?thesis
      proof (cases "get s ''$ref'' \<in> seen")
        case True
        with ts tr show ?thesis
          by (subst generate_st.simps, subst generate.simps) (simp add: keep_state_def)
      next
        case notin: False
        show ?thesis
        proof (cases "resolveRef (get s ''$ref'') fullDoc")
          case (Inl e)
          with ts tr notin show ?thesis
            by (subst generate_st.simps, subst generate.simps) (simp add: keep_state_def)
        next
          case (Inr resolved)
          show ?thesis
          proof (cases "truthy resolved")
            case False
            with ts tr notin Inr show ?thesis
              by (subst generate_st.simps, subst generate.simps) (simp add: keep_state_def)
          next
            case True
            have ih: "generate_st rt fullDoc (insert (get s ''$ref'') seen) resolved
                = Some (keep_state (insert (get s ''$ref'') seen)
                          (generate rt fullDoc (insert (get s ''$ref'') seen) resolved))"
              using "1.IH"(1) ts tr notin Inr True by simp
            have g: "generate rt fullDoc seen s
                     = generate rt fullDoc (insert (get s ''$ref'') seen) resolved"
              using ts tr notin Inr True by (subst generate.simps) simp
            have "generate_st rt fullDoc seen s
                  = bind_st (generate_st rt fullDoc (insert (get s ''$ref'') seen) resolved)
                      (\<lambda>(result, seen'). Some (Inr (result, seen' - {get s ''$ref''})))"
              using ts tr notin Inr True by (subst generate_st.simps) simp
            then show ?thesis
              using notin
              by (cases "generate rt fullDoc (insert (get s ''$ref'') seen) resolved")
                 (simp_all add: ih g bind_st_keep keep_state_def)
          qed
        qed
      qed
    next
      case nr: False
      show ?thesis
      proof (cases "truthy (get s ''allOf'')")
        case ta: True
        show ?thesis
        proof (cases "\<exists>subs. get s ''allOf'' = JArr subs")
          case False
          have "generate_st rt fullDoc seen s = Some (Inl TypeError)"
            using False ts nr ta by (subst generate_st.simps, cases "get s ''allOf''") simp_all
          moreover have "generate rt fullDoc seen s = Inl TypeError"
            using False ts nr ta by (subst generate.simps, cases "get s ''allOf''") simp_all
          ultimately show ?thesis by (simp add: keep_state_def)
        next
          case True
          then obtain subs where subs: "get s ''allOf'' = JArr subs" by blast
          let ?h = "\<lambda>(combined :: (string \<times> jv) list) (sub :: jv) generated.
                      if typeof generated = ''object''
                      then spread_into combined generated else combined"
          let ?loop = "forEach_acc
                     (\<lambda>combined sub. case generate rt fullDoc seen sub of
                          Inl e \<Rightarrow> Inl e
                        | Inr generated \<Rightarrow> Inr (?h combined sub generated)) [] subs"
          have gs: "generate_st rt fullDoc seen s =
              bind_st
                 (forEach_st
                    (\<lambda>(combined, seen) sub.
                       bind_st (generate_st rt fullDoc seen sub)
                         (\<lambda>(generated, seen'). Some (Inr (?h combined sub generated, seen'))))
                    ([], seen) subs)
                 (\<lambda>(combined, seen). Some (Inr (JObj combined, seen)))"
            using ts nr ta subs by (subst generate_st.simps) simp
          have g: "generate rt fullDoc seen s =
                (case ?loop of Inl e \<Rightarrow> Inl e | Inr combined \<Rightarrow> Inr (JObj combined))"
            using ts nr ta subs by (subst generate.simps) simp
          have loop: "forEach_st
                    (\<lambda>(combined, seen) sub.
                       bind_st (generate_st rt fullDoc seen sub)
                         (\<lambda>(generated, seen'). Some (Inr (?h combined sub generated, seen'))))
                    ([], seen) subs = Some (keep_state seen ?loop)"
            by (rule forEach_st_keep [where g = "generate_st rt fullDoc"
                  and f = "generate rt fullDoc seen" and h = ?h])
               (use "1.IH"(2) ts nr ta subs in simp)
          show ?thesis
            unfolding gs g loop by (cases ?loop) (simp_all add: bind_st_keep keep_state_def)
        qed
      next
        case na: False
        show ?thesis
        proof (cases "truthy (get s ''oneOf'') \<or> truthy (get s ''anyOf'')")
          case True
          have g: "generate rt fullDoc seen s = generate rt fullDoc seen
                     (get (js_or (get s ''oneOf'') (get s ''anyOf'')) ''0'')"
            using ts nr na True by (subst generate.simps) simp
          have gs: "generate_st rt fullDoc seen s = generate_st rt fullDoc seen
                     (get (js_or (get s ''oneOf'') (get s ''anyOf'')) ''0'')"
            using ts nr na True by (subst generate_st.simps) simp
          show ?thesis unfolding g gs using "1.IH"(3) ts nr na True by simp
        next
          case no: False
          show ?thesis
          proof (cases "(get s ''type'' = JStr ''object'' \<or> \<not> truthy (get s ''type''))
                        \<and> truthy (get s ''properties'')")
            case True
            let ?h = "\<lambda>(obj :: (string \<times> jv) list) key v. set_prop obj key v"
            let ?keys = "map fst (own_entries (get s ''properties''))"
            let ?loop = "forEach_acc
                       (\<lambda>obj key. case generate rt fullDoc seen (get (get s ''properties'') key) of
                            Inl e \<Rightarrow> Inl e
                          | Inr v \<Rightarrow> Inr (?h obj key v)) [] ?keys"
            have gs: "generate_st rt fullDoc seen s =
                bind_st
                   (forEach_st
                      (\<lambda>(obj, seen) key.
                         bind_st (generate_st rt fullDoc seen (get (get s ''properties'') key))
                           (\<lambda>(v, seen'). Some (Inr (?h obj key v, seen'))))
                      ([], seen) ?keys)
                   (\<lambda>(obj, seen). Some (Inr (JObj obj, seen)))"
              using ts nr na no True by (subst generate_st.simps) simp
            have g: "generate rt fullDoc seen s =
                  (case ?loop of Inl e \<Rightarrow> Inl e | Inr obj \<Rightarrow> Inr (JObj obj))"
              using ts nr na no True by (subst generate.simps) simp
            have loop: "forEach_st
                      (\<lambda>(obj, seen) key.
                         bind_st (generate_st rt fullDoc seen (get (get s ''properties'') key))
                           (\<lambda>(v, seen'). Some (Inr (?h obj key v, seen'))))
                      ([], seen) ?keys = Some (keep_state seen ?loop)"
              by (rule forEach_st_keep
                    [where g = "\<lambda>seen key. generate_st rt fullDoc seen (get (get s ''properties'') key)"
                       and f = "\<lambda>key. generate rt fullDoc seen (get (get s ''properties'') key)"
                       and h = ?h])
                 (use "1.IH"(4) ts nr na no True in simp)
            show ?thesis
              unfolding gs g loop by (cases ?loop) (simp_all add: bind_st_keep keep_state_def)
          next
            case np: False
            show ?thesis
            proof (cases "get s ''type'' = JStr ''array'' \<and> truthy (get s ''items'')")
              case True
              have g: "generate rt fullDoc seen s =
                    (case generate rt fullDoc seen (get s ''items'') of
                       Inl e \<Rightarrow> Inl e | Inr v \<Rightarrow> Inr (JArr [v]))"
                using ts nr na no np True by (subst generate.simps) simp
              have gs: "generate_st rt fullDoc seen s =
                    bind_st (generate_st rt fullDoc seen (get s ''items''))
                      (\<lambda>(v, seen). Some (Inr (JArr [v], seen)))"
                using ts nr na no np True by (subst generate_st.simps) simp
              have ih: "generate_st rt fullDoc seen (get s ''items'')
                        = Some (keep_state seen (generate rt fullDoc seen (get s ''items'')))"
                using "1.IH"(5) ts nr na no np True by simp
              show ?thesis
                unfolding gs g ih
                by (cases "generate rt fullDoc seen (get s ''items'')")
                   (simp_all add: bind_st_keep keep_state_def)
            next
              case nw: False
              have g: "generate rt fullDoc seen s =
                  (if get s ''example'' \<noteq> JUndef then Inr (get s ''example'')
                   else if get s ''default'' \<noteq> JUndef then Inr (get s ''default'')
                   else Inr (primitive_sample rt s))"
                by (subst generate.simps) (simp only: ts nr na no np nw if_False if_True simp_thms)
              have gs: "generate_st rt fullDoc seen s =
                  (if get s ''example'' \<noteq> JUndef then Some (Inr (get s ''example'', seen))
                   else if get s ''default'' \<noteq> JUndef then Some (Inr (get s ''default'', seen))
                   else Some (Inr (primitive_sample rt s, seen)))"
                by (subst generate_st.simps)
                   (simp only: ts nr na no np nw if_False if_True simp_thms)
              show ?thesis unfolding g gs by (simp add: keep_state_def)
            qed
          qed
        qed
      qed
    qed
  qed
qed

section \<open>Properties of sample synthesis\<close>

lemma truthy_get_truthy: "truthy (get s k) \<Longrightarrow> truthy s"
  by (cases s) (auto simp: get_def split: option.splits if_splits)

text \<open>C6 (resolveRef returns the located node, or null without raising an error when a
  segment is missing): the loop guards a missing key but not a \<^verbatim>\<open>null\<close> node. On the
  document \<^verbatim>\<open>{"definitions": {"Pet": null}}\<close> the pointer
  \<^verbatim>\<open>#/definitions/Pet/properties\<close> reaches \<^verbatim>\<open>null\<close> and the next read throws a
  TypeError.\<close>

theorem resolveRef_null_node_throws:
  "resolveRef (JStr ''#/definitions/Pet/properties'')
     (JObj [(''definitions'', JObj [(''Pet'', JNull)])]) = Inl TypeError"
  by (simp add: resolveRef_def strip_hash_slash_def getProp_def get_def)

theorem resolveRef_null_node_throws_witness:
  "\<not> (\<exists>v. resolveRef (JStr ''#/definitions/Pet/properties'')
              (JObj [(''definitions'', JObj [(''Pet'', JNull)])]) = Inr v)"
  using resolveRef_null_node_throws by simp

text \<open>C10: on a falsy schema generateSampleJson returns the empty string, while a truthy
  schema whose sample is \<^verbatim>\<open>null\<close> is rendered as the text \<^verbatim>\<open>null\<close>.\<close>

theorem generateSampleJson_falsy_schema:
  "(\<not> truthy schema \<longrightarrow> generateSampleJson rt schema fullDoc seenRefs = Inr (JStr []))
   \<and> (truthy schema \<and> generate rt fullDoc seenRefs schema = Inr JNull
        \<longrightarrow> generateSampleJson rt schema fullDoc seenRefs = Inr (JStr ''null''))"
  by (simp add: generateSampleJson_def try_catch_def bind_err_def JSON_stringify_def)

theorem generateSampleJson_falsy_schema_witness:
  "generateSampleJson example_runtime JNull (JObj []) {} = Inr (JStr [])
   \<and> generateSampleJson example_runtime (JObj []) (JObj []) {} = Inr (JStr ''null'')"
proof -
  have g: "generate example_runtime (JObj []) {} (JObj []) = Inr JNull"
    by (simp add: generate.simps get_def primitive_sample_def)
  show ?thesis
    using generateSampleJson_falsy_schema [of JNull example_runtime "JObj []" "{}"]
      generateSampleJson_falsy_schema [of "JObj []" example_runtime "JObj []" "{}"] g
    by simp
qed

text \<open>C5: generateSampleJson returns a value on every schema and document and never
  throws; when the traversal throws, the value is the fixed text
  \<^verbatim>\<open>Check Swagger Schema\<close>.\<close>

theorem generateSampleJson_never_throws:
  "(\<exists>v. generateSampleJson rt schema fullDoc seenRefs = Inr v)
   \<and> (truthy schema \<and> generate rt fullDoc seenRefs schema = Inl e
        \<longrightarrow> generateSampleJson rt schema fullDoc seenRefs = Inr (JStr ''Check Swagger Schema''))"
  by (cases "generate rt fullDoc seenRefs schema")
     (simp_all add: generateSampleJson_def try_catch_def bind_err_def)

theorem generateSampleJson_never_throws_witness:
  "generate example_runtime (JObj []) {} (JObj [(''$ref'', JNum 5)]) = Inl TypeError
   \<and> generateSampleJson example_runtime (JObj [(''$ref'', JNum 5)]) (JObj []) {}
       = Inr (JStr ''Check Swagger Schema'')"
proof -
  have g: "generate example_runtime (JObj []) {} (JObj [(''$ref'', JNum 5)]) = Inl TypeError"
    by (simp add: generate.simps get_def resolveRef_def)
  show ?thesis
    using generateSampleJson_never_throws
      [of example_runtime "JObj [(''$ref'', JNum 5)]" "JObj []" "{}" TypeError] g
    by simp
qed

text \<open>C3: the traversal of \<^verbatim>\<open>generate\<close>, run with the mutable set of in-flight pointers,
  returns on every schema, document and set (it yields the sample of \<open>generate\<close> and
  leaves the set as it was), generateSampleJson returns a value, and a node whose pointer
  is already in flight yields the empty object without a recursive call.\<close>

theorem generate_cycle_guard:
  "generate_st rt fullDoc seenRefs s
     = Some (keep_state seenRefs (generate rt fullDoc seenRefs s))
   \<and> (\<exists>v. generateSampleJson rt s fullDoc seenRefs = Inr v)
   \<and> (truthy (get s ''$ref'') \<and> get s ''$ref'' \<in> seenRefs
        \<longrightarrow> generate rt fullDoc seenRefs s = Inr (JObj []))"
proof -
  have "\<exists>v. generateSampleJson rt s fullDoc seenRefs = Inr v"
    by (cases "generate rt fullDoc seenRefs s")
       (simp_all add: generateSampleJson_def try_catch_def bind_err_def)
  moreover have "truthy (get s ''$ref'') \<and> get s ''$ref'' \<in> seenRefs
        \<longrightarrow> generate rt fullDoc seenRefs s = Inr (JObj [])"
    using truthy_get_truthy [of s "''$ref''"] by (subst generate.simps) simp
  ultimately show ?thesis using generate_st_eq [of rt fullDoc seenRefs s] by blast
qed

theorem generate_cycle_guard_witness:
  "generate example_runtime self_doc {JStr ''#/A''} (JObj [(''$ref'', JStr ''#/A'')]) = Inr (JObj [])
   \<and> generate example_runtime self_doc {} (JObj [(''$ref'', JStr ''#/A'')])
       = Inr (JObj [(''self'', JObj [])])
   \<and> generate_st example_runtime self_doc {} (JObj [(''$ref'', JStr ''#/A'')])
       = Some (Inr (JObj [(''self'', JObj [])], {}))"
proof -
  have a: "generate example_runtime self_doc {JStr ''#/A''} (JObj [(''$ref'', JStr ''#/A'')])
           = Inr (JObj [])"
    using generate_cycle_guard
      [of example_runtime self_doc "{JStr ''#/A''}" "JObj [(''$ref'', JStr ''#/A'')]"]
    by (simp add: get_def)
  have b: "generate example_runtime self_doc {} (JObj [(''$ref'', JStr ''#/A'')])
       = Inr (JObj [(''self'', JObj [])])"
    by (simp add: generate.simps self_doc_def get_def resolveRef_def strip_hash_slash_def
        getProp_def)
  have c: "generate_st example_runtime self_doc {} (JObj [(''$ref'', JStr ''#/A'')])
       = Some (Inr (JObj [(''self'', JObj [])], {}))"
    using generate_cycle_guard
      [of example_runtime self_doc "{}" "JObj [(''$ref'', JStr ''#/A'')]"] b
    by (simp add: keep_state_def)
  show ?thesis using a b c by simp
qed

text \<open>C7, as amended: at the oneOf/anyOf rule (reached, as the precedence has it, by a
  schema with no \<^verbatim>\<open>$ref\<close> and no \<^verbatim>\<open>allOf\<close>) the listing used is \<^verbatim>\<open>s.oneOf || s.anyOf\<close>:
  the oneOf listing when the schema has one, the anyOf listing otherwise. When that listing
  has a first member, the sample is exactly the sample of that first member, whatever the
  other members are.\<close>

theorem generate_oneOf_first:
  assumes "\<not> truthy (get s ''$ref'')" and "\<not> truthy (get s ''allOf'')"
    and "js_or (get s ''oneOf'') (get s ''anyOf'') = JArr (m # ms)"
  shows "generate rt fullDoc seenRefs s = generate rt fullDoc seenRefs m"
proof -
  have t: "truthy (js_or (get s ''oneOf'') (get s ''anyOf''))" using assms(3) by simp
  then have t2: "truthy (get s ''oneOf'') \<or> truthy (get s ''anyOf'')"
    by (auto simp: js_or_def split: if_splits)
  then have ts: "truthy s" using truthy_get_truthy by blast
  have first: "get (JArr (m # ms)) ''0'' = m"
    by (simp add: get_def index_keys_def upt_rec dec.simps digit_char_def)
  show ?thesis
    using assms ts t2 first by (subst generate.simps) simp
qed

theorem generate_oneOf_first_witness:
  "generate example_runtime (JObj []) {}
     (JObj [(''oneOf'', JArr [JObj [(''type'', JStr ''boolean'')],
                              JObj [(''type'', JStr ''string'')],
                              JObj [(''type'', JStr ''integer'')]])])
   = generate example_runtime (JObj []) {} (JObj [(''type'', JStr ''boolean'')])
   \<and> generate example_runtime (JObj []) {} (JObj [(''type'', JStr ''boolean'')])
       = Inr (JBool True)"
proof -
  have a: "generate example_runtime (JObj []) {}
     (JObj [(''oneOf'', JArr [JObj [(''type'', JStr ''boolean'')],
                              JObj [(''type'', JStr ''string'')],
                              JObj [(''type'', JStr ''integer'')]])])
   = generate example_runtime (JObj []) {} (JObj [(''type'', JStr ''boolean'')])"
    by (rule generate_oneOf_first
          [where ms = "[JObj [(''type'', JStr ''string'')], JObj [(''type'', JStr ''integer'')]]"])
       (simp_all add: get_def js_or_def)
  have b: "generate example_runtime (JObj []) {} (JObj [(''type'', JStr ''boolean'')])
       = Inr (JBool True)"
    by (simp add: generate.simps get_def primitive_sample_def)
  show ?thesis using a b by simp
qed

text \<open>C7 as stated fails on a schema that carries an anyOf listing with a member beside an
  empty oneOf listing: the empty array is truthy, so \<^verbatim>\<open>(s.oneOf || s.anyOf)[0]\<close> reads
  index 0 of the oneOf listing. For \<^verbatim>\<open>{oneOf: [], anyOf: [{type: "string"}]}\<close> the sample is
  \<^verbatim>\<open>null\<close>, while the sample of the first anyOf member is \<^verbatim>\<open>"sample_string"\<close>.\<close>

theorem oneOf_empty_anyOf_counterexample:
  "generate example_runtime (JObj []) {}
     (JObj [(''oneOf'', JArr []),
            (''anyOf'', JArr [JObj [(''type'', JStr ''string'')]])])
     = Inr JNull
   \<and> generate example_runtime (JObj []) {} (JObj [(''type'', JStr ''string'')])
     = Inr (JStr ''sample_string'')"
  by (simp add: generate.simps get_def js_or_def primitive_sample_def index_keys_def)

lemma map_of_set_prop: "map_of (set_prop kvs k v) = (map_of kvs)(k \<mapsto> v)"
  by (induction kvs) auto

lemma map_of_foldl_set_prop:
  "map_of (foldl (\<lambda>acc (k, v). set_prop acc k v) c es) = overwrite (map_of c) es"
proof (induction es arbitrary: c)
  case Nil
  then show ?case by (simp add: overwrite_def)
next
  case (Cons e es)
  then show ?case by (cases e) (simp add: overwrite_def map_of_set_prop)
qed

lemma map_of_spread_into:
  "map_of (spread_into c g) = overwrite (map_of c) (own_entries g)"
  by (simp add: spread_into_def map_of_foldl_set_prop)

lemma map_of_merge_step:
  "map_of (merge_step c g) = overwrite (map_of c) (merge_entries g)"
  by (cases g) (simp_all add: merge_step_def map_of_spread_into merge_entries_def overwrite_def)

lemma map_of_foldl_merge_step:
  "map_of (foldl merge_step c gs)
   = foldl (\<lambda>m v. overwrite m (merge_entries v)) (map_of c) gs"
  by (induction gs arbitrary: c) (simp_all add: map_of_merge_step)

lemma forEach_acc_collect:
  assumes "forEach_acc (\<lambda>acc x. case f x of Inl e \<Rightarrow> Inl e | Inr y \<Rightarrow> Inr (acc @ [y])) ys0 xs
           = Inr ys'"
  shows "\<exists>ys. ys' = ys0 @ ys \<and>
           forEach_acc (\<lambda>acc x. case f x of Inl e \<Rightarrow> Inl e | Inr y \<Rightarrow> Inr (g acc y)) a xs
             = Inr (foldl g a ys)"
  using assms
proof (induction xs arbitrary: ys0 a)
  case Nil
  then show ?case by simp
next
  case (Cons x xs)
  show ?case
  proof (cases "f x")
    case (Inl e)
    with Cons.prems show ?thesis by simp
  next
    case (Inr y)
    with Cons.prems have
      "forEach_acc (\<lambda>acc x. case f x of Inl e \<Rightarrow> Inl e | Inr y \<Rightarrow> Inr (acc @ [y])) (ys0 @ [y]) xs
       = Inr ys'" by simp
    from Cons.IH [OF this, of "g a y"] obtain ys where
      ys: "ys' = (ys0 @ [y]) @ ys"
      "forEach_acc (\<lambda>acc x. case f x of Inl e \<Rightarrow> Inl e | Inr y \<Rightarrow> Inr (g acc y)) (g a y) xs
         = Inr (foldl g (g a y) ys)" by blast
    have "ys' = ys0 @ (y # ys)" using ys(1) by simp
    moreover have
      "forEach_acc (\<lambda>acc x. case f x of Inl e \<Rightarrow> Inl e | Inr y \<Rightarrow> Inr (g acc y)) a (x # xs)
         = Inr (foldl g a (y # ys))" using ys(2) Inr by simp
    ultimately show ?thesis by blast
  qed
qed

lemma map_err_fold:
  assumes "map_err f xs = Inr ys"
  shows "forEach_acc (\<lambda>acc x. case f x of Inl e \<Rightarrow> Inl e | Inr y \<Rightarrow> Inr (g acc y)) a xs
         = Inr (foldl g a ys)"
  using forEach_acc_collect [of f "[]" xs ys g a] assms by (auto simp: map_err_def)

text \<open>What the allOf rule computes, as a mapping from keys to values: the left-to-right
  merge of the member samples, later keys overwriting earlier ones, when every member
  sample is produced.\<close>

lemma generate_allOf_merge:
  assumes "\<not> truthy (get s ''$ref'')"
    and "get s ''allOf'' = JArr members"
    and "map_err (generate rt fullDoc seenRefs) members = Inr samples"
  shows "\<exists>kvs. generate rt fullDoc seenRefs s = Inr (JObj kvs)
               \<and> map_of kvs = merged_map samples"
proof -
  have ts: "truthy s" using assms(2) truthy_get_truthy [of s "''allOf''"] by simp
  have loop: "forEach_acc
          (\<lambda>combined sub. case generate rt fullDoc seenRefs sub of Inl e \<Rightarrow> Inl e
             | Inr generated \<Rightarrow> Inr (merge_step combined generated)) [] members
        = Inr (foldl merge_step [] samples)"
    using assms(3) by (rule map_err_fold)
  have ms: "merge_step = (\<lambda>combined generated.
      if typeof generated = ''object'' then spread_into combined generated else combined)"
    by (intro ext) (simp add: merge_step_def)
  have "generate rt fullDoc seenRefs s = Inr (JObj (foldl merge_step [] samples))"
    unfolding ms using assms(1,2) ts loop [unfolded ms] by (subst generate.simps) simp
  moreover have "map_of (foldl merge_step [] samples) = merged_map samples"
    by (simp add: map_of_foldl_merge_step merged_map_def)
  ultimately show ?thesis by blast
qed

lemma ab_sample: "generate example_runtime (JObj []) {} ab_schema
    = Inr (JObj [(''a'', JNum 1), (''b'', JNum 1)])"
  by (simp add: generate.simps ab_schema_def get_def)

lemma bc_sample: "generate example_runtime (JObj []) {} bc_schema
    = Inr (JObj [(''b'', JNum 2), (''c'', JNum 2)])"
  by (simp add: generate.simps bc_schema_def get_def)

lemma generate_allOf_merge_example:
  "(\<exists>kvs. generate example_runtime (JObj []) {} (JObj [(''allOf'', JArr [ab_schema, bc_schema])])
           = Inr (JObj kvs)
         \<and> map_of kvs = merged_map [JObj [(''a'', JNum 1), (''b'', JNum 1)],
                                     JObj [(''b'', JNum 2), (''c'', JNum 2)]])
   \<and> merged_map [JObj [(''a'', JNum 1), (''b'', JNum 1)],
                  JObj [(''b'', JNum 2), (''c'', JNum 2)]]
     = map_of [(''a'', JNum 1), (''b'', JNum 2), (''c'', JNum 2)]"
proof -
  have m: "map_err (generate example_runtime (JObj []) {}) [ab_schema, bc_schema]
           = Inr [JObj [(''a'', JNum 1), (''b'', JNum 1)], JObj [(''b'', JNum 2), (''c'', JNum 2)]]"
    by (simp add: map_err_def ab_sample bc_sample)
  have a: "\<exists>kvs. generate example_runtime (JObj []) {} (JObj [(''allOf'', JArr [ab_schema, bc_schema])])
           = Inr (JObj kvs)
         \<and> map_of kvs = merged_map [JObj [(''a'', JNum 1), (''b'', JNum 1)],
                                     JObj [(''b'', JNum 2), (''c'', JNum 2)]]"
    by (rule generate_allOf_merge [OF _ _ m]) (simp_all add: get_def)
  have b: "merged_map [JObj [(''a'', JNum 1), (''b'', JNum 1)],
                  JObj [(''b'', JNum 2), (''c'', JNum 2)]]
     = map_of [(''a'', JNum 1), (''b'', JNum 2), (''c'', JNum 2)]"
    by (auto simp: merged_map_def overwrite_def merge_entries_def fun_eq_iff)
  show ?thesis using a b by blast
qed

text \<open>On member samples none of which is an array, that merge is the one that drops the
  samples that are not objects.\<close>

lemma merged_map_without_arrays:
  assumes "\<And>v xs. v \<in> set samples \<Longrightarrow> v \<noteq> JArr xs"
  shows "foldl (\<lambda>m v. overwrite m (merge_entries v)) m0 samples
         = foldl (\<lambda>m v. case v of JObj kvs \<Rightarrow> overwrite m kvs | _ \<Rightarrow> m) m0 samples"
  using assms
proof (induction samples arbitrary: m0)
  case Nil
  then show ?case by simp
next
  case (Cons v vs)
  have step: "overwrite m0 (merge_entries v) = (case v of JObj kvs \<Rightarrow> overwrite m0 kvs | _ \<Rightarrow> m0)"
    using Cons.prems [of v] by (cases v) (auto simp add: merge_entries_def overwrite_def)
  have "foldl (\<lambda>m v. overwrite m (merge_entries v)) (overwrite m0 (merge_entries v)) vs
        = foldl (\<lambda>m v. case v of JObj kvs \<Rightarrow> overwrite m kvs | _ \<Rightarrow> m)
            (overwrite m0 (merge_entries v)) vs"
    by (rule Cons.IH) (simp add: Cons.prems)
  then show ?case by (simp add: step)
qed

lemma generate_allOf_drops_non_objects:
  assumes "\<not> truthy (get s ''$ref'')"
    and "get s ''allOf'' = JArr members"
    and "map_err (generate rt fullDoc seenRefs) members = Inr samples"
    and "\<And>v xs. v \<in> set samples \<Longrightarrow> v \<noteq> JArr xs"
  shows "\<exists>kvs. generate rt fullDoc seenRefs s = Inr (JObj kvs)
               \<and> map_of kvs = spec_allOf_merge samples"
  using generate_allOf_merge [OF assms(1-3)] merged_map_without_arrays [OF assms(4)]
  by (simp add: merged_map_def spec_allOf_merge_def)

text \<open>C4 (the allOf sample is the left-to-right merge of the member samples, and a member
  whose sample is not an object is dropped from the merge): the test
  \<^verbatim>\<open>typeof generated === 'object'\<close> that keeps the object samples also lets an array
  through, and the spread then copies its elements under their indices. The member
  \<^verbatim>\<open>{type: "array", items: {type: "string"}}\<close> has the sample \<^verbatim>\<open>["sample_string"]\<close>, and
  the sample of \<^verbatim>\<open>{allOf: [{type: "array", items: {type: "string"}}]}\<close> is
  \<^verbatim>\<open>{"0": "sample_string"}\<close>, where the merge that drops the samples that are not objects
  has no key \<^verbatim>\<open>0\<close>.\<close>

theorem allOf_array_member_merged:
  "generate example_runtime (JObj []) {}
       (JObj [(''type'', JStr ''array''), (''items'', JObj [(''type'', JStr ''string'')])])
     = Inr (JArr [JStr ''sample_string''])
   \<and> generate example_runtime (JObj []) {}
       (JObj [(''allOf'', JArr [JObj [(''type'', JStr ''array''),
                                      (''items'', JObj [(''type'', JStr ''string'')])]])])
     = Inr (JObj [(''0'', JStr ''sample_string'')])
   \<and> spec_allOf_merge [JArr [JStr ''sample_string'']] ''0'' = None"
  by (simp add: generate.simps get_def primitive_sample_def spec_allOf_merge_def
      spread_into_def index_keys_def dec.simps digit_char_def)

theorem allOf_array_member_merged_witness:
  "generate example_runtime (JObj []) {}
       (JObj [(''allOf'', JArr [JObj [(''type'', JStr ''array''),
                                      (''items'', JObj [(''type'', JStr ''string'')])]])])
     \<noteq> Inr (JObj [])"
  using allOf_array_member_merged by simp

section \<open>Properties of parseSwagger\<close>

lemma forEach_acc_invariant:
  assumes "forEach_acc f a xs = Inr b" and "P a"
    and "\<And>a x a'. x \<in> set xs \<Longrightarrow> P a \<Longrightarrow> f a x = Inr a' \<Longrightarrow> P a'"
  shows "P b"
  using assms
proof (induction xs arbitrary: a)
  case Nil
  then show ?case by simp
next
  case (Cons x xs)
  from Cons.prems(1) obtain a' where fx: "f a x = Inr a'" and rest: "forEach_acc f a' xs = Inr b"
    by (cases "f a x") auto
  have "P a'" using Cons.prems(3) [of x a a'] Cons.prems(2) fx by simp
  then show ?case using Cons.IH [OF rest] Cons.prems(3) by auto
qed

lemma path_endpoints_members:
  assumes "path_endpoints paths acc p = Inr eps" and "ep \<in> set eps"
  shows "ep \<in> set acc \<or>
         (\<exists>m. m \<in> set (map fst (own_entries (get paths p)))
              \<and> endpoint_of p m (get (get paths p) m) = Inr ep)"
proof -
  let ?Q = "\<lambda>ep. \<exists>m. m \<in> set (map fst (own_entries (get paths p)))
              \<and> endpoint_of p m (get (get paths p) m) = Inr ep"
  let ?f = "\<lambda>acc m. bind_err (endpoint_of p m (get (get paths p) m)) (\<lambda>ep. Inr (acc @ [ep]))"
  from assms(1) have run:
    "forEach_acc ?f acc (map fst (own_entries (get paths p))) = Inr eps"
    by (auto simp: path_endpoints_def bind_err_def Object_keys_def split: if_splits)
  have "\<forall>e \<in> set eps. e \<in> set acc \<or> ?Q e"
  proof (rule forEach_acc_invariant [OF run])
    show "\<forall>e \<in> set acc. e \<in> set acc \<or> ?Q e" by simp
  next
    fix a m a'
    assume m: "m \<in> set (map fst (own_entries (get paths p)))"
      and inv: "\<forall>e \<in> set a. e \<in> set acc \<or> ?Q e"
      and step: "?f a m = Inr a'"
    from step obtain e' where e': "endpoint_of p m (get (get paths p) m) = Inr e'"
      and a': "a' = a @ [e']"
      by (cases "endpoint_of p m (get (get paths p) m)") (auto simp: bind_err_def)
    have "?Q e'" using m e' by blast
    with inv a' show "\<forall>e \<in> set a'. e \<in> set acc \<or> ?Q e" by auto
  qed
  with assms(2) show ?thesis by blast
qed

lemma parseSwagger_members:
  assumes "parseSwagger data = Inr eps" and "ep \<in> set eps"
  shows "\<exists>p m. p \<in> set (map fst (own_entries (js_or (get data ''paths'') (JObj []))))
           \<and> m \<in> set (map fst (own_entries (get (js_or (get data ''paths'') (JObj [])) p)))
           \<and> endpoint_of p m (get (get (js_or (get data ''paths'') (JObj [])) p) m) = Inr ep"
proof -
  let ?paths = "js_or (get data ''paths'') (JObj [])"
  let ?Q = "\<lambda>ep. \<exists>p m. p \<in> set (map fst (own_entries ?paths))
           \<and> m \<in> set (map fst (own_entries (get ?paths p)))
           \<and> endpoint_of p m (get (get ?paths p) m) = Inr ep"
  from assms(1) have run:
    "forEach_acc (path_endpoints ?paths) [] (map fst (own_entries ?paths)) = Inr eps"
    by (auto simp: parseSwagger_def bind_err_def getProp_def Object_keys_def split: if_splits)
  have "\<forall>e \<in> set eps. ?Q e"
  proof (rule forEach_acc_invariant [OF run])
    show "\<forall>e \<in> set []. ?Q e" by simp
  next
    fix a p a'
    assume p: "p \<in> set (map fst (own_entries ?paths))"
      and inv: "\<forall>e \<in> set a. ?Q e"
      and step: "path_endpoints ?paths a p = Inr a'"
    show "\<forall>e \<in> set a'. ?Q e"
    proof
      fix e assume "e \<in> set a'"
      from path_endpoints_members [OF step this] inv p show "?Q e" by blast
    qed
  qed
  with assms(2) show ?thesis by blast
qed

text \<open>C9, as amended: every operation that parseSwagger returns comes from a path \<open>p\<close>
  and a method key \<open>m\<close> of the document, with the method upper-cased, \<^verbatim>\<open>parameters\<close>
  the empty array and \<^verbatim>\<open>responses\<close> the empty object when the source omits them (or has
  a falsy value there), \<^verbatim>\<open>summary\<close> the source summary, else the description, else
  \<^verbatim>\<open><METHOD> <path>\<close>, and \<^verbatim>\<open>tags\<close> the source value as it is: \<^verbatim>\<open>undefined\<close> when the
  source omits it.\<close>

theorem parseSwagger_defaults:
  assumes "parseSwagger data = Inr endpoints" and "ep \<in> set endpoints"
  shows "\<exists>p m op.
           p \<in> set (map fst (own_entries (js_or (get data ''paths'') (JObj []))))
         \<and> m \<in> set (map fst (own_entries (get (js_or (get data ''paths'') (JObj [])) p)))
         \<and> op = get (get (js_or (get data ''paths'') (JObj [])) p) m
         \<and> path ep = p
         \<and> method ep = toUpperCase m
         \<and> parameters ep = (if truthy (get op ''parameters'') then get op ''parameters''
                             else JArr [])
         \<and> responses ep = (if truthy (get op ''responses'') then get op ''responses''
                            else JObj [])
         \<and> tags ep = get op ''tags''
         \<and> summary ep = (if truthy (get op ''summary'') then get op ''summary''
                          else if truthy (get op ''description'') then get op ''description''
                          else JStr (toUpperCase m @ '' '' @ p))"
proof -
  from parseSwagger_members [OF assms] obtain p m where
    p: "p \<in> set (map fst (own_entries (js_or (get data ''paths'') (JObj []))))"
    and m: "m \<in> set (map fst (own_entries (get (js_or (get data ''paths'') (JObj [])) p)))"
    and e: "endpoint_of p m (get (get (js_or (get data ''paths'') (JObj [])) p) m) = Inr ep"
    by blast
  let ?op = "get (get (js_or (get data ''paths'') (JObj [])) p) m"
  from e have ep: "ep = \<lparr> path = p, method = toUpperCase m,
                 summary = js_or (js_or (get ?op ''summary'') (get ?op ''description''))
                                 (JStr (toUpperCase m @ '' '' @ p)),
                 parameters = js_or (get ?op ''parameters'') (JArr []),
                 responses = js_or (get ?op ''responses'') (JObj []),
                 requestBody = get ?op ''requestBody'',
                 operationId = get ?op ''operationId'',
                 tags = get ?op ''tags'' \<rparr>"
    by (simp add: endpoint_of_def split: if_splits)
  have "path ep = p" "method ep = toUpperCase m" "tags ep = get ?op ''tags''"
    "parameters ep = (if truthy (get ?op ''parameters'') then get ?op ''parameters'' else JArr [])"
    "responses ep = (if truthy (get ?op ''responses'') then get ?op ''responses'' else JObj [])"
    "summary ep = (if truthy (get ?op ''summary'') then get ?op ''summary''
                          else if truthy (get ?op ''description'') then get ?op ''description''
                          else JStr (toUpperCase m @ '' '' @ p))"
    by (simp_all add: ep js_or_def)
  with p m show ?thesis by blast
qed

lemma pets_parse: "parseSwagger pets_doc =
     Inr [\<lparr> path = ''/pets'', method = ''GET'', summary = JStr ''GET /pets'',
             parameters = JArr [], responses = JObj [], requestBody = JUndef,
             operationId = JUndef, tags = JUndef \<rparr>]"
  by (simp add: parseSwagger_def pets_doc_def bind_err_def getProp_def get_def js_or_def
      Object_keys_def path_endpoints_def endpoint_of_def toUpperCase_def upper_char_def)

theorem parseSwagger_defaults_witness:
  "\<exists>p m op.
           p \<in> set (map fst (own_entries (js_or (get pets_doc ''paths'') (JObj []))))
         \<and> m \<in> set (map fst (own_entries (get (js_or (get pets_doc ''paths'') (JObj [])) p)))
         \<and> op = get (get (js_or (get pets_doc ''paths'') (JObj [])) p) m
         \<and> ''/pets'' = p
         \<and> ''GET'' = toUpperCase m
         \<and> JArr [] = (if truthy (get op ''parameters'') then get op ''parameters''
                             else JArr [])
         \<and> JObj [] = (if truthy (get op ''responses'') then get op ''responses''
                            else JObj [])
         \<and> JUndef = get op ''tags''
         \<and> JStr ''GET /pets'' = (if truthy (get op ''summary'') then get op ''summary''
                          else if truthy (get op ''description'') then get op ''description''
                          else JStr (toUpperCase m @ '' '' @ p))"
  using parseSwagger_defaults [OF pets_parse, of "\<lparr> path = ''/pets'', method = ''GET'', summary = JStr ''GET /pets'',
             parameters = JArr [], responses = JObj [], requestBody = JUndef,
             operationId = JUndef, tags = JUndef \<rparr>"]
  by simp

text \<open>C9 as stated fails on \<^verbatim>\<open>tags\<close>: for \<^verbatim>\<open>{"paths": {"/pets": {"get": {}}}}\<close> the
  operation has \<^verbatim>\<open>tags\<close> undefined, not an empty collection.\<close>

theorem parseSwagger_tags_counterexample:
  "parseSwagger (JObj [(''paths'', JObj [(''/pets'', JObj [(''get'', JObj [])])])]) =
     Inr [\<lparr> path = ''/pets'', method = ''GET'', summary = JStr ''GET /pets'',
             parameters = JArr [], responses = JObj [], requestBody = JUndef,
             operationId = JUndef, tags = JUndef \<rparr>]
   \<and> get (JObj []) ''tags'' = JUndef
   \<and> tags \<lparr> path = ''/pets'', method = ''GET'', summary = JStr ''GET /pets'',
             parameters = JArr [], responses = JObj [], requestBody = JUndef,
             operationId = JUndef, tags = JUndef \<rparr> \<noteq> JArr []"
  using pets_parse by (simp add: pets_doc_def get_def)

section \<open>Properties of generateTestCases\<close>

subsection \<open>The shape of the output\<close>

lemma number_from_append:
  "number_from n (as @ bs) = number_from n as @ number_from (n + length as) bs"
  by (induction as arbitrary: n) simp_all

lemma length_number_from: "length (number_from n mks) = length mks"
  by (induction mks arbitrary: n) simp_all

lemma nth_number_from: "k < length mks \<Longrightarrow> number_from n mks ! k = (mks ! k) (n + k)"
proof (induction mks arbitrary: n k)
  case Nil
  then show ?case by simp
next
  case (Cons mk mks)
  then show ?case by (cases k) simp_all
qed

lemma filter_err_required:
  assumes "forEach_acc
             (\<lambda>acc x. case bind_err (getProp x ''required'') (\<lambda>r. Inr (truthy r)) of
                         Inl e \<Rightarrow> Inl e
                       | Inr keep \<Rightarrow> Inr (if keep then acc @ [x] else acc)) acc0 params = Inr ms"
  shows "ms = acc0 @ filter (\<lambda>p. truthy (get p ''required'')) params"
  using assms
proof (induction params arbitrary: acc0)
  case Nil
  then show ?case by simp
next
  case (Cons p ps)
  show ?case
  proof (cases "nullish p")
    case True
    with Cons.prems show ?thesis by (simp add: bind_err_def getProp_def)
  next
    case False
    with Cons.prems Cons.IH [of "if truthy (get p ''required'') then acc0 @ [p] else acc0"]
    show ?thesis by (simp add: bind_err_def getProp_def split: if_splits)
  qed
qed

lemma mandatory_filter:
  assumes "parameters ep = JArr params"
    and "filter_err (\<lambda>p. bind_err (getProp p ''required'') (\<lambda>r. Inr (truthy r))) params = Inr ms"
  shows "ms \<noteq> [] \<longleftrightarrow> mandatory_exists ep"
proof -
  have "ms = filter (\<lambda>p. truthy (get p ''required'')) params"
    using filter_err_required [of "[]" params ms] assms(2) by (simp add: filter_err_def)
  then show ?thesis
    using assms(1) by (auto simp: mandatory_exists_def list_ex_iff filter_empty_conv)
qed

lemma push_pair: "push (tcs, n) mk = (tcs @ [mk n], Suc n)"
  by (simp add: push_def)

lemma endpoint_cases_shape:
  assumes "endpoint_cases rt fullDoc st ep = Inr st'"
  shows "\<exists>mks. is_block ep mks \<and>
           st' = (fst st @ number_from (snd st) mks, snd st + length mks)"
proof -
  obtain tcs n where st: "st = (tcs, n)" by (cases st)
  from assms obtain params where params: "parameters ep = JArr params"
    by (cases "parameters ep") (simp_all add: endpoint_cases_def)
  from assms params obtain d where d: "testData_of rt fullDoc ep params = Inr d"
    by (cases "testData_of rt fullDoc ep params") (simp_all add: endpoint_cases_def bind_err_def)
  let ?flt = "filter_err (\<lambda>p. bind_err (getProp p ''required'') (\<lambda>r. Inr (truthy r))) params"
  from assms params d obtain ms where ms: "?flt = Inr ms"
    by (cases ?flt) (simp_all add: endpoint_cases_def bind_err_def Let_def)
  have mand: "ms \<noteq> [] \<longleftrightarrow> mandatory_exists ep" using params ms by (rule mandatory_filter)
  show ?thesis
  proof (cases ms)
    case Nil
    have "is_block ep (block ep d None)"
      using mand Nil by (auto simp: is_block_def)
    moreover have "st' = (fst st @ number_from (snd st) (block ep d None),
                          snd st + length (block ep d None))"
      using assms params d ms Nil st
      by (auto simp add: endpoint_cases_def bind_err_def Let_def push_pair block_def
          split: if_splits)
    ultimately show ?thesis by blast
  next
    case (Cons p rest)
    from assms params d ms Cons obtain name where name: "to_str rt (get p ''name'') = Inr name"
      by (cases "to_str rt (get p ''name'')")
         (simp_all add: endpoint_cases_def bind_err_def Let_def)
    have "is_block ep (block ep d (Some name))"
      using mand Cons by (auto simp: is_block_def)
    moreover have "st' = (fst st @ number_from (snd st) (block ep d (Some name)),
                          snd st + length (block ep d (Some name)))"
      using assms params d ms Cons name st
      by (auto simp add: endpoint_cases_def bind_err_def Let_def push_pair block_def
          split: if_splits)
    ultimately show ?thesis by blast
  qed
qed

lemma run_shape:
  assumes "forEach_acc (endpoint_cases rt fullDoc) st eps = Inr st'"
  shows "\<exists>blocks. list_all2 is_block eps blocks \<and>
           st' = (fst st @ number_from (snd st) (concat blocks), snd st + length (concat blocks))"
  using assms
proof (induction eps arbitrary: st)
  case Nil
  then show ?case by simp
next
  case (Cons ep eps)
  from Cons.prems obtain st1 where s1: "endpoint_cases rt fullDoc st ep = Inr st1"
    and rest: "forEach_acc (endpoint_cases rt fullDoc) st1 eps = Inr st'"
    by (cases "endpoint_cases rt fullDoc st ep") auto
  from endpoint_cases_shape [OF s1] obtain mks where
    mks: "is_block ep mks" "st1 = (fst st @ number_from (snd st) mks, snd st + length mks)"
    by blast
  from Cons.IH [OF rest] obtain blocks where
    bl: "list_all2 is_block eps blocks"
        "st' = (fst st1 @ number_from (snd st1) (concat blocks), snd st1 + length (concat blocks))"
    by blast
  have "list_all2 is_block (ep # eps) (mks # blocks)" using mks(1) bl(1) by simp
  moreover have "st' = (fst st @ number_from (snd st) (concat (mks # blocks)),
                        snd st + length (concat (mks # blocks)))"
    using bl(2) mks(2) by (simp add: number_from_append add.assoc)
  ultimately show ?case by blast
qed

lemma generateTestCases_shape:
  assumes "generateTestCases rt endpoints fullDoc = Inr tcs"
  shows "\<exists>blocks. list_all2 is_block endpoints blocks \<and> tcs = number_from 1 (concat blocks)"
proof -
  from assms obtain st' where
    run: "forEach_acc (endpoint_cases rt fullDoc) ([], 1) endpoints = Inr st'" and t: "tcs = fst st'"
    by (cases "forEach_acc (endpoint_cases rt fullDoc) ([], 1) endpoints")
       (auto simp: generateTestCases_def bind_err_def)
  from run_shape [OF run] t show ?thesis by auto
qed

lemma length_block: "is_block ep mks \<Longrightarrow> length mks = case_count ep"
  by (auto simp: is_block_def block_def case_count_def split: option.splits)

lemma blocks_lengths:
  "list_all2 is_block eps blocks \<Longrightarrow> map length blocks = map case_count eps"
  by (induction rule: list_all2_induct) (simp_all add: length_block)

lemma test_case_fields:
  "Test_Case_ID (test_case ep sc st pr td ex i) = ''TC-'' @ dec i"
  "Endpoint (test_case ep sc st pr td ex i) = path ep"
  "Method (test_case ep sc st pr td ex i) = method ep"
  "Test_Scenario (test_case ep sc st pr td ex i) = sc"
  "Expected_Result (test_case ep sc st pr td ex i) = ex"
  by (simp_all add: test_case_def)

lemma block_makers:
  assumes "is_block ep mks" and "mk \<in> set mks"
  shows "\<exists>sc st pr td ex. mk = test_case ep sc st pr td ex"
proof -
  from assms(1) obtain d missing where mks: "mks = block ep d missing"
    by (auto simp: is_block_def)
  from assms(2) have "mk = positive_case ep d \<or> mk = unauthorized_case ep
      \<or> (\<exists>name. mk = missing_case ep name) \<or> mk = content_type_case ep
      \<or> mk = malformed_case ep \<or> mk = invalid_types_case ep"
    unfolding mks block_def by (auto split: option.splits if_splits)
  then show ?thesis
    unfolding positive_case_def unauthorized_case_def missing_case_def content_type_case_def
      malformed_case_def invalid_types_case_def
    by blast
qed

lemma block_ids:
  assumes "is_block ep mks" and "mk \<in> set mks"
  shows "Test_Case_ID (mk i) = ''TC-'' @ dec i"
  using block_makers [OF assms] by (auto simp: test_case_fields)

lemma block_labels:
  assumes "is_block ep mks" and "mk \<in> set mks"
  shows "Endpoint (mk i) = path ep \<and> Method (mk i) = method ep"
  using block_makers [OF assms] by (auto simp: test_case_fields)

lemma blocks_ids:
  assumes "list_all2 is_block eps blocks" and "mk \<in> set (concat blocks)"
  shows "Test_Case_ID (mk i) = ''TC-'' @ dec i"
proof -
  from assms(2) obtain b where b: "b \<in> set blocks" "mk \<in> set b" by auto
  then obtain j where j: "j < length blocks" "blocks ! j = b" by (auto simp: in_set_conv_nth)
  with assms(1) have "is_block (eps ! j) b" by (auto simp: list_all2_conv_all_nth)
  then show ?thesis using b(2) by (rule block_ids)
qed

lemma ids_number_from:
  assumes "\<And>mk i. mk \<in> set mks \<Longrightarrow> Test_Case_ID (mk i) = ''TC-'' @ dec i"
  shows "map Test_Case_ID (number_from n mks) = map (\<lambda>i. ''TC-'' @ dec i) [n..<n + length mks]"
  using assms
proof (induction mks arbitrary: n)
  case Nil
  then show ?case by simp
next
  case (Cons mk mks)
  have "map Test_Case_ID (number_from (Suc n) mks)
        = map (\<lambda>i. ''TC-'' @ dec i) [Suc n..<Suc n + length mks]"
    by (rule Cons.IH) (simp add: Cons.prems)
  moreover have "[n..<n + length (mk # mks)] = n # [Suc n..<Suc n + length mks]"
    by (subst upt_conv_Cons) simp_all
  ultimately show ?case using Cons.prems [of mk n] by simp
qed

lemma labels_number_from:
  assumes "\<And>mk i. mk \<in> set mks \<Longrightarrow> Endpoint (mk i) = p \<and> Method (mk i) = m"
  shows "map (\<lambda>tc. (Endpoint tc, Method tc)) (number_from n mks) = replicate (length mks) (p, m)"
  using assms by (induction mks arbitrary: n) simp_all

lemma labels_blocks:
  assumes "list_all2 is_block eps blocks"
  shows "map (\<lambda>tc. (Endpoint tc, Method tc)) (number_from n (concat blocks))
         = concat (map (\<lambda>ep. replicate (case_count ep) (path ep, method ep)) eps)"
  using assms
proof (induction arbitrary: n rule: list_all2_induct)
  case Nil
  then show ?case by simp
next
  case (Cons ep eps mks blocks)
  have "map (\<lambda>tc. (Endpoint tc, Method tc)) (number_from n mks)
        = replicate (length mks) (path ep, method ep)"
    by (rule labels_number_from) (rule block_labels [OF Cons.hyps(1)])
  then show ?case
    using Cons.IH [of "n + length mks"] length_block [OF Cons.hyps(1)]
    by (simp add: number_from_append)
qed

lemma case_count_ge3: "3 \<le> case_count ep"
  by (simp add: case_count_def)

lemma sum_case_count_ge: "3 * length eps \<le> sum_list (map case_count eps)"
proof (induction eps)
  case Nil
  then show ?case by simp
next
  case (Cons ep eps)
  then show ?case using case_count_ge3 [of ep] by simp
qed

lemma generateTestCases_length:
  assumes "generateTestCases rt endpoints fullDoc = Inr tcs"
  shows "length tcs = sum_list (map case_count endpoints)"
proof -
  from generateTestCases_shape [OF assms] obtain blocks where
    bl: "list_all2 is_block endpoints blocks" and t: "tcs = number_from 1 (concat blocks)"
    by blast
  have "length tcs = sum_list (map length blocks)"
    by (simp add: t length_number_from length_concat)
  then show ?thesis using blocks_lengths [OF bl] by simp
qed

lemma generateTestCases_labels:
  assumes "generateTestCases rt endpoints fullDoc = Inr tcs"
  shows "map (\<lambda>tc. (Endpoint tc, Method tc)) tcs
         = concat (map (\<lambda>ep. replicate (case_count ep) (path ep, method ep)) endpoints)"
proof -
  from generateTestCases_shape [OF assms] obtain blocks where
    bl: "list_all2 is_block endpoints blocks" and t: "tcs = number_from 1 (concat blocks)"
    by blast
  show ?thesis unfolding t by (rule labels_blocks [OF bl])
qed

subsection \<open>When the run returns\<close>

lemma to_str_scalar: "scalar v \<Longrightarrow> \<exists>t. to_str rt v = Inr t"
  by (cases v) simp_all

lemma forEach_acc_total:
  assumes "\<And>acc x. x \<in> set xs \<Longrightarrow> \<exists>a'. f acc x = Inr a'"
  shows "\<exists>b. forEach_acc f a xs = Inr b"
  using assms
proof (induction xs arbitrary: a)
  case Nil
  then show ?case by simp
next
  case (Cons x xs)
  from Cons.prems [of x a] obtain a' where a': "f a x = Inr a'" by auto
  have "\<exists>b. forEach_acc f a' xs = Inr b" by (rule Cons.IH) (simp add: Cons.prems)
  with a' show ?case by simp
qed

lemma generateSampleJson_scalar:
  "\<exists>v. generateSampleJson rt schema fullDoc seenRefs = Inr v \<and> scalar v"
proof (cases "generate rt fullDoc seenRefs schema")
  case (Inl e)
  then show ?thesis by (simp add: generateSampleJson_def try_catch_def bind_err_def)
next
  case (Inr sample)
  then show ?thesis
    by (cases "stringify_at rt [] sample")
       (simp_all add: generateSampleJson_def try_catch_def bind_err_def JSON_stringify_def)
qed

lemma param_text_plain:
  assumes "plain_param p"
  shows "\<exists>t. param_text rt p = Inr t"
proof -
  from assms have nn: "\<not> nullish p" and sn: "scalar (get p ''name'')"
    and se: "scalar (get p ''example'')" by (simp_all add: plain_param_def)
  from sn obtain n where n: "to_str rt (get p ''name'') = Inr n" using to_str_scalar by blast
  have "scalar (js_or (get p ''example'') (JStr ''value''))" using se by (simp add: js_or_def)
  then obtain v where v: "to_str rt (js_or (get p ''example'') (JStr ''value'')) = Inr v"
    using to_str_scalar by blast
  show ?thesis using nn n v by (simp add: param_text_def bind_err_def getProp_def)
qed

lemma testData_returns:
  assumes "list_all plain_param params"
  shows "\<exists>d. testData_of rt fullDoc ep params = Inr d"
proof (cases "truthy (body_schema ep)")
  case True
  obtain v where v: "generateSampleJson rt (body_schema ep) fullDoc {} = Inr v" "scalar v"
    using generateSampleJson_scalar by blast
  then obtain t where "to_str rt v = Inr t" using to_str_scalar by blast
  with True v(1) show ?thesis by (simp add: testData_of_def bind_err_def)
next
  case False
  have "\<exists>texts. map_err (param_text rt) params = Inr texts"
    unfolding map_err_def
  proof (rule forEach_acc_total)
    fix acc :: "string list" and x
    assume "x \<in> set params"
    with assms have "plain_param x" by (simp add: list_all_iff)
    then obtain t where "param_text rt x = Inr t" using param_text_plain by blast
    then show "\<exists>a'. (case param_text rt x of Inl e \<Rightarrow> Inl e | Inr y \<Rightarrow> Inr (acc @ [y])) = Inr a'"
      by simp
  qed
  with False show ?thesis by (auto simp: testData_of_def bind_err_def)
qed

lemma filter_returns:
  assumes "list_all plain_param params"
  shows "\<exists>ms. filter_err (\<lambda>p. bind_err (getProp p ''required'') (\<lambda>r. Inr (truthy r))) params
              = Inr ms"
  unfolding filter_err_def
proof (rule forEach_acc_total)
  fix acc :: "jv list" and x
  assume "x \<in> set params"
  with assms have "\<not> nullish x" by (simp add: list_all_iff plain_param_def)
  then show "\<exists>a'. (case bind_err (getProp x ''required'') (\<lambda>r. Inr (truthy r)) of
                      Inl e \<Rightarrow> Inl e
                    | Inr keep \<Rightarrow> Inr (if keep then acc @ [x] else acc)) = Inr a'"
    by (simp add: bind_err_def getProp_def)
qed

lemma endpoint_cases_returns:
  assumes "plain_parameters ep"
  shows "\<exists>st'. endpoint_cases rt fullDoc st ep = Inr st'"
proof -
  from assms obtain params where params: "parameters ep = JArr params"
    and plain: "list_all plain_param params"
    by (cases "parameters ep") (simp_all add: plain_parameters_def)
  from testData_returns [OF plain] obtain d where d: "testData_of rt fullDoc ep params = Inr d"
    by blast
  let ?flt = "filter_err (\<lambda>p. bind_err (getProp p ''required'') (\<lambda>r. Inr (truthy r))) params"
  from filter_returns [OF plain] obtain ms where ms: "?flt = Inr ms" by blast
  have sub: "ms = filter (\<lambda>p. truthy (get p ''required'')) params"
    using filter_err_required [of "[]" params ms] ms by (simp add: filter_err_def)
  show ?thesis
  proof (cases ms)
    case Nil
    with params d ms show ?thesis by (simp add: endpoint_cases_def bind_err_def Let_def)
  next
    case (Cons p rest)
    with sub have "p \<in> set params" by (metis filter_is_subset list.set_intros(1) subsetD)
    with plain have "scalar (get p ''name'')" by (simp add: list_all_iff plain_param_def)
    then obtain name where "to_str rt (get p ''name'') = Inr name" using to_str_scalar by blast
    with params d ms Cons show ?thesis by (simp add: endpoint_cases_def bind_err_def Let_def)
  qed
qed

lemma generateTestCases_returns:
  assumes "list_all plain_parameters endpoints"
  shows "\<exists>tcs. generateTestCases rt endpoints fullDoc = Inr tcs"
proof -
  have "\<exists>st'. forEach_acc (endpoint_cases rt fullDoc) ([], 1) endpoints = Inr st'"
  proof (rule forEach_acc_total)
    fix acc :: "TestCase list \<times> nat" and x
    assume "x \<in> set endpoints"
    with assms have "plain_parameters x" by (simp add: list_all_iff)
    then show "\<exists>a'. endpoint_cases rt fullDoc acc x = Inr a'" by (rule endpoint_cases_returns)
  qed
  then show ?thesis by (auto simp: generateTestCases_def bind_err_def)
qed

lemma pets_plain: "list_all plain_parameters pets_endpoints"
  by (simp add: pets_endpoints_def plain_parameters_def plain_param_def get_def)

lemma pets_counts: "map case_count pets_endpoints = [4, 5]"
  by (simp add: pets_endpoints_def case_count_def mandatory_exists_def get_def)

lemma quoted_plain: "list_all plain_parameters [quoted_required]"
  by (simp add: quoted_required_def plain_parameters_def plain_param_def get_def)

lemma concat_nth_block:
  assumes "i < length blocks" and "blocks ! i \<noteq> []"
  shows "length (concat (take i blocks)) < length (concat blocks)
         \<and> concat blocks ! length (concat (take i blocks)) = hd (blocks ! i)"
proof -
  have "blocks = take i blocks @ blocks ! i # drop (Suc i) blocks"
    using assms(1) by (rule id_take_nth_drop)
  then have c: "concat blocks
      = concat (take i blocks) @ blocks ! i @ concat (drop (Suc i) blocks)"
    by (metis concat.simps(2) concat_append)
  obtain x xs where x: "blocks ! i = x # xs" using assms(2) by (cases "blocks ! i") auto
  show ?thesis by (subst (1 2) c) (simp add: x)
qed

lemma is_block_hd:
  assumes "is_block ep mks"
  shows "mks \<noteq> [] \<and> (\<exists>d. hd mks = positive_case ep d)"
  using assms by (auto simp: is_block_def block_def)

lemma blocks_offset:
  assumes "list_all2 is_block eps blocks"
  shows "length (concat (take i blocks)) = positive_index eps i"
proof -
  have "length (concat (take i blocks)) = sum_list (map length (take i blocks))"
    by (simp add: length_concat)
  also have "\<dots> = sum_list (take i (map length blocks))" by (simp add: take_map)
  also have "\<dots> = sum_list (take i (map case_count eps))"
    using blocks_lengths [OF assms] by simp
  finally show ?thesis by (simp add: positive_index_def take_map)
qed

lemma generateTestCases_positive:
  assumes "generateTestCases rt endpoints fullDoc = Inr tcs" and "i < length endpoints"
  shows "positive_index endpoints i < length tcs
         \<and> (\<exists>d. tcs ! positive_index endpoints i
                  = positive_case (endpoints ! i) d (Suc (positive_index endpoints i)))"
proof -
  from generateTestCases_shape [OF assms(1)] obtain blocks where
    bl: "list_all2 is_block endpoints blocks" and t: "tcs = number_from 1 (concat blocks)"
    by blast
  have len: "length blocks = length endpoints" using bl by (simp add: list_all2_lengthD)
  have bi: "is_block (endpoints ! i) (blocks ! i)"
    using bl assms(2) by (simp add: list_all2_conv_all_nth)
  from is_block_hd [OF bi] obtain d where ne: "blocks ! i \<noteq> []"
    and hd: "hd (blocks ! i) = positive_case (endpoints ! i) d" by blast
  have off: "length (concat (take i blocks)) = positive_index endpoints i"
    using bl by (rule blocks_offset)
  from concat_nth_block [of i blocks] assms(2) len ne off
  have lt: "positive_index endpoints i < length (concat blocks)"
    and nth: "concat blocks ! positive_index endpoints i = hd (blocks ! i)" by simp_all
  have "tcs ! positive_index endpoints i
        = (concat blocks ! positive_index endpoints i) (1 + positive_index endpoints i)"
    unfolding t using lt by (rule nth_number_from)
  with nth hd have "tcs ! positive_index endpoints i
        = positive_case (endpoints ! i) d (Suc (positive_index endpoints i))" by simp
  moreover have "positive_index endpoints i < length tcs"
    using lt by (simp add: t length_number_from)
  ultimately show ?thesis by blast
qed

subsection \<open>The claims\<close>

text \<open>C1, as amended: when generateTestCases returns, its output is, operation by
  operation in order, a block of cases carrying that operation's path and method, of
  exactly 3 cases, plus 1 if some parameter of the operation has a truthy \<^verbatim>\<open>required\<close>
  (\<^verbatim>\<open>true\<close>, a non-empty string, a non-zero number, an object or an array), plus 2 if the
  method is POST, PUT or PATCH; so the total is at least 3 times the number of operations.
  It returns whenever every operation has an array of parameters none of which is
  \<^verbatim>\<open>null\<close> and whose \<^verbatim>\<open>name\<close> and \<^verbatim>\<open>example\<close> are not objects or arrays.\<close>

theorem generateTestCases_count:
  "(generateTestCases rt endpoints fullDoc = Inr tcs \<longrightarrow>
      map (\<lambda>tc. (Endpoint tc, Method tc)) tcs
        = concat (map (\<lambda>ep. replicate (case_count ep) (path ep, method ep)) endpoints)
      \<and> length tcs = sum_list (map case_count endpoints)
      \<and> 3 * length endpoints \<le> length tcs)
   \<and> (list_all plain_parameters endpoints \<longrightarrow>
        (\<exists>tcs'. generateTestCases rt endpoints fullDoc = Inr tcs'))"
  using generateTestCases_labels [of rt endpoints fullDoc tcs]
    generateTestCases_length [of rt endpoints fullDoc tcs]
    sum_case_count_ge [of endpoints]
    generateTestCases_returns [of endpoints rt fullDoc]
  by simp

theorem generateTestCases_count_witness:
  "\<exists>tcs. generateTestCases example_runtime pets_endpoints (JObj []) = Inr tcs
         \<and> map (\<lambda>tc. (Endpoint tc, Method tc)) tcs
             = replicate 4 (''/pets'', ''GET'') @ replicate 5 (''/pets'', ''POST'')
         \<and> length tcs = 9"
proof -
  obtain tcs where t: "generateTestCases example_runtime pets_endpoints (JObj []) = Inr tcs"
    using generateTestCases_count [of example_runtime pets_endpoints "JObj []"] pets_plain
    by blast
  have "map (\<lambda>tc. (Endpoint tc, Method tc)) tcs
          = concat (map (\<lambda>ep. replicate (case_count ep) (path ep, method ep)) pets_endpoints)"
    and "length tcs = sum_list (map case_count pets_endpoints)"
    using generateTestCases_count [of example_runtime pets_endpoints "JObj []" tcs] t
    by simp_all
  moreover have "concat (map (\<lambda>ep. replicate (case_count ep) (path ep, method ep)) pets_endpoints)
       = replicate 4 (''/pets'', ''GET'') @ replicate 5 (''/pets'', ''POST'')"
    by (simp add: pets_endpoints_def case_count_def mandatory_exists_def get_def)
  ultimately show ?thesis using t pets_counts by simp
qed

text \<open>C1 as stated fails: a parameter with \<^verbatim>\<open>required: "false"\<close> (a string) has no
  \<^verbatim>\<open>required = true\<close>, yet the missing-parameter case is emitted: 4 cases for a GET,
  where the stated count is 3.\<close>

theorem required_truthy_counterexample:
  "map_sum id length (generateTestCases example_runtime [quoted_required] (JObj [])) = Inr 4
   \<and> spec_case_count quoted_required = 3"
proof -
  obtain tcs where t: "generateTestCases example_runtime [quoted_required] (JObj []) = Inr tcs"
    using generateTestCases_returns [OF quoted_plain] by blast
  have "length tcs = sum_list (map case_count [quoted_required])"
    using t by (rule generateTestCases_length)
  also have "\<dots> = 4"
    by (simp add: quoted_required_def case_count_def mandatory_exists_def get_def)
  finally have "length tcs = 4" .
  moreover have "spec_case_count quoted_required = 3"
    by (simp add: quoted_required_def spec_case_count_def get_def)
  ultimately show ?thesis using t by simp
qed

text \<open>C2: in the output of one call the identifiers are \<^verbatim>\<open>TC-1\<close>, \<^verbatim>\<open>TC-2\<close>, ... in
  emission order: the \<open>k\<close>-th case carries the number \<open>k\<close>, across operation boundaries.\<close>

theorem generateTestCases_ids:
  assumes "generateTestCases rt endpoints fullDoc = Inr tcs"
  shows "map Test_Case_ID tcs = map (\<lambda>i. ''TC-'' @ dec i) [1..<Suc (length tcs)]"
proof -
  from generateTestCases_shape [OF assms] obtain blocks where
    bl: "list_all2 is_block endpoints blocks" and t: "tcs = number_from 1 (concat blocks)"
    by blast
  have "map Test_Case_ID (number_from 1 (concat blocks))
        = map (\<lambda>i. ''TC-'' @ dec i) [1..<1 + length (concat blocks)]"
    by (rule ids_number_from) (rule blocks_ids [OF bl])
  then show ?thesis by (simp add: t length_number_from)
qed

theorem generateTestCases_ids_witness:
  "\<exists>tcs. generateTestCases example_runtime pets_endpoints (JObj []) = Inr tcs
         \<and> map Test_Case_ID tcs
             = [''TC-1'', ''TC-2'', ''TC-3'', ''TC-4'', ''TC-5'', ''TC-6'', ''TC-7'', ''TC-8'',
                ''TC-9'']"
proof -
  obtain tcs where t: "generateTestCases example_runtime pets_endpoints (JObj []) = Inr tcs"
    using generateTestCases_returns [OF pets_plain] by blast
  have nine: "[1..<Suc 9] = [1, 2, 3, 4, 5, 6, 7, 8, 9::nat]"
    by (simp add: upt_rec)
  have len: "length tcs = 9"
    using generateTestCases_length [OF t] pets_counts by simp
  have "map Test_Case_ID tcs = map (\<lambda>i. ''TC-'' @ dec i) [1..<Suc (length tcs)]"
    using t by (rule generateTestCases_ids)
  also have "\<dots> = [''TC-1'', ''TC-2'', ''TC-3'', ''TC-4'', ''TC-5'', ''TC-6'', ''TC-7'', ''TC-8'',
                ''TC-9'']"
    unfolding len nine by (simp add: dec.simps digit_char_def)
  finally have "map Test_Case_ID tcs
      = [''TC-1'', ''TC-2'', ''TC-3'', ''TC-4'', ''TC-5'', ''TC-6'', ''TC-7'', ''TC-8'', ''TC-9'']" .
  with t show ?thesis by simp
qed

text \<open>C8: the positive case of every operation (the first case of its block) states
  \<^verbatim>\<open>201 Created\<close> as the expected status when the method is POST and \<^verbatim>\<open>200 OK\<close> for
  every other method.\<close>

theorem generateTestCases_positive_status:
  assumes "generateTestCases rt endpoints fullDoc = Inr tcs" and "i < length endpoints"
  shows "positive_index endpoints i < length tcs
     \<and> Test_Scenario (tcs ! positive_index endpoints i)
         = ''Verify successful '' @ method (endpoints ! i) @ '' request to '' @ path (endpoints ! i)
     \<and> Expected_Result (tcs ! positive_index endpoints i)
         = ''Response status should be ''
           @ (if method (endpoints ! i) = ''POST'' then ''201 Created'' else ''200 OK'')
           @ '' and body should contain expected fields.''"
proof -
  from generateTestCases_positive [OF assms] obtain d where
    lt: "positive_index endpoints i < length tcs"
    and p: "tcs ! positive_index endpoints i
            = positive_case (endpoints ! i) d (Suc (positive_index endpoints i))" by blast
  show ?thesis
    unfolding p using lt
    by (simp add: positive_case_def test_case_fields successStatus_def)
qed

theorem generateTestCases_positive_status_witness:
  "\<exists>tcs. generateTestCases example_runtime pets_endpoints (JObj []) = Inr tcs
     \<and> Expected_Result (tcs ! 0)
         = ''Response status should be 200 OK and body should contain expected fields.''
     \<and> Expected_Result (tcs ! 4)
         = ''Response status should be 201 Created and body should contain expected fields.''"
proof -
  obtain tcs where t: "generateTestCases example_runtime pets_endpoints (JObj []) = Inr tcs"
    using generateTestCases_returns [OF pets_plain] by blast
  have i0: "positive_index pets_endpoints 0 = 0" by (simp add: positive_index_def)
  have i1: "positive_index pets_endpoints (Suc 0) = 4"
    using pets_counts by (simp add: positive_index_def pets_endpoints_def)
  have m0: "method (pets_endpoints ! 0) = ''GET''" by (simp add: pets_endpoints_def)
  have m1: "method (pets_endpoints ! Suc 0) = ''POST''" by (simp add: pets_endpoints_def)
  have l: "length pets_endpoints = 2" by (simp add: pets_endpoints_def)
  have a: "Expected_Result (tcs ! 0)
         = ''Response status should be 200 OK and body should contain expected fields.''"
    using generateTestCases_positive_status [OF t, of 0] l by (simp add: i0 m0)
  have b: "Expected_Result (tcs ! 4)
         = ''Response status should be 201 Created and body should contain expected fields.''"
    using generateTestCases_positive_status [OF t, of 1] l by (simp add: i1 m1)
  from t a b show ?thesis by simp
qed

end
